theory Spec2Isabelle
  imports Main
begin

section \<open>Route patterns: from the pattern string to the compiled matcher\<close>

text \<open>
  The router keeps, for every route, the regular expression that \<open>pathToRegex\<close> builds
  from the pattern string. The pattern is first cleaned of trailing slashes, then every
  \<open>/\<close> is escaped, then every \<open>:name\<close> is replaced by a named group; the resulting text
  is handed to the regular-expression constructor between \<open>^\<close> and \<open>$\<close>.
\<close>

subsection \<open>Trailing slashes\<close>

text \<open>\<open>s.replace(/\/+$/, '')\<close>: the maximal run of slashes at the end is removed.\<close>

definition strip_trailing_slashes :: "string \<Rightarrow> string" where
  "strip_trailing_slashes p = rev (dropWhile (\<lambda>c. c = CHR ''/'') (rev p))"

text \<open>\<open>s.replace(TRAILING_SLASH_REGEXP, '') || '/'\<close>: the empty string is falsy.\<close>

definition cleanPath :: "string \<Rightarrow> string" where
  "cleanPath p = (let q = strip_trailing_slashes p in if q = [] then ''/'' else q)"

subsection \<open>The text of the regular expression\<close>

definition backslash :: char where
  "backslash = CHR 0x5C"

text \<open>\<open>.replace(/\//g, '\\/')\<close>: every slash gets a backslash in front.\<close>

definition escape_slashes :: "string \<Rightarrow> string" where
  "escape_slashes s = concat (map (\<lambda>c. if c = CHR ''/'' then [backslash, CHR ''/''] else [c]) s)"

text \<open>The character class \<open>[A-Za-z0-9_]\<close> of parameter names.\<close>

definition is_digit :: "char \<Rightarrow> bool" where
  "is_digit c = (c \<in> set ''0123456789'')"

definition is_key_char :: "char \<Rightarrow> bool" where
  "is_key_char c =
     (c \<in> set ''ABCDEFGHIJKLMNOPQRSTUVWXYZabcdefghijklmnopqrstuvwxyz_'' \<or> is_digit c)"

text \<open>The replacement text \<open>(?<key>[^\/]+)\<close> of one parameter.\<close>

definition group_src :: "string \<Rightarrow> string" where
  "group_src key = ''(?<'' @ key @ ''>[^'' @ [backslash] @ ''/]+)''"

text \<open>
  \<open>.replace(/:([A-Za-z0-9_]+)/g, (_, key) => { keys.push(key); return ... })\<close>: the text
  is scanned from the left; a colon followed by at least one name character starts a
  match, which takes the longest run of name characters; the scan goes on behind the
  match. The second component is \<open>keys\<close>, in the order of the matches.
\<close>

function replace_params :: "string \<Rightarrow> string \<times> string list" where
  "replace_params [] = ([], [])"
| "replace_params (c # cs) =
     (if c = CHR '':'' \<and> takeWhile is_key_char cs \<noteq> [] then
        (case replace_params (dropWhile is_key_char cs) of
           (out, keys) \<Rightarrow> (group_src (takeWhile is_key_char cs) @ out, takeWhile is_key_char cs # keys))
      else
        (case replace_params cs of (out, keys) \<Rightarrow> (c # out, keys)))"
  by pat_completeness auto
termination
  by (relation "measure length") (auto simp: le_imp_less_Suc length_dropWhile_le)

subsection \<open>The regular expressions that the router builds\<close>

text \<open>
  \<open>new RegExp(src)\<close> and \<open>String.prototype.match\<close> belong to the JavaScript runtime. They
  are modelled for the expressions that \<open>pathToRegex\<close> produces from a pattern without
  regular-expression metacharacters: a sequence of literal characters, escaped slashes
  and named groups \<open>(?<name>[^\/]+)\<close>, between \<open>^\<close> and \<open>$\<close>. A group name has to be an
  identifier (it must not start with a digit) and must not occur twice; the constructor
  throws a \<open>SyntaxError\<close> otherwise. Any other use of a metacharacter is outside the
  model and reported as \<open>Unsupported\<close>.
\<close>

datatype node = Literal char | NamedGroup string

datatype regexp_error = SyntaxError | Unsupported

type_synonym regexp = "node list"

definition is_metachar :: "char \<Rightarrow> bool" where
  "is_metachar c = (c \<in> set ''^$.*+?()[]{}|'' \<or> c = backslash)"

fun strip_prefix :: "string \<Rightarrow> string \<Rightarrow> string option" where
  "strip_prefix [] ys = Some ys"
| "strip_prefix (x # xs) [] = None"
| "strip_prefix (x # xs) (y # ys) = (if x = y then strip_prefix xs ys else None)"

text \<open>Behind an opening parenthesis: \<open>?<name>[^\/]+)\<close>, giving the name and the rest.\<close>

definition take_group :: "string \<Rightarrow> (string \<times> string) option" where
  "take_group cs =
     (case strip_prefix ''?<'' cs of
        None \<Rightarrow> None
      | Some r1 \<Rightarrow>
          (case strip_prefix (''>[^'' @ [backslash] @ ''/]+)'') (dropWhile is_key_char r1) of
             None \<Rightarrow> None
           | Some r2 \<Rightarrow> Some (takeWhile is_key_char r1, r2)))"

definition cons_node :: "node \<Rightarrow> regexp_error + regexp \<Rightarrow> regexp_error + regexp" where
  "cons_node nd r = (case r of Inl e \<Rightarrow> Inl e | Inr nds \<Rightarrow> Inr (nd # nds))"

lemma strip_prefix_length: "strip_prefix p ys = Some r \<Longrightarrow> length r \<le> length ys"
  by (induction p ys rule: strip_prefix.induct) (auto split: if_splits)

lemma take_group_length: "take_group cs = Some (name, r) \<Longrightarrow> length r \<le> length cs"
  unfolding take_group_def
  by (auto split: option.splits dest!: strip_prefix_length
      intro: order_trans[OF _ order_trans[OF length_dropWhile_le]])

text \<open>
  The body of the expression up to the closing \<open>$\<close>; \<open>seen\<close> holds the group names
  read so far.
\<close>

function parse_nodes :: "string \<Rightarrow> string list \<Rightarrow> regexp_error + regexp" where
  "parse_nodes [] seen = Inl Unsupported"
| "parse_nodes (c # cs) seen =
     (if c = CHR ''$'' then (if cs = [] then Inr [] else Inl Unsupported)
      else if c = backslash then
        (case cs of
           [] \<Rightarrow> Inl Unsupported
         | d # ds \<Rightarrow> if d = CHR ''/'' then cons_node (Literal d) (parse_nodes ds seen)
                    else Inl Unsupported)
      else if c = CHR ''('' then
        (case take_group cs of
           None \<Rightarrow> Inl Unsupported
         | Some (name, r) \<Rightarrow>
             if name = [] \<or> is_digit (hd name) \<or> name \<in> set seen then Inl SyntaxError
             else cons_node (NamedGroup name) (parse_nodes r (name # seen)))
      else if is_metachar c then Inl Unsupported
      else cons_node (Literal c) (parse_nodes cs seen))"
  by pat_completeness auto
termination
  by (relation "measure (\<lambda>(s, seen). length s)")
     (auto simp: le_imp_less_Suc dest: take_group_length)

text \<open>\<open>new RegExp(src)\<close> for a source of the form \<open>^...$\<close>.\<close>

definition RegExp :: "string \<Rightarrow> regexp_error + regexp" where
  "RegExp src = (case src of [] \<Rightarrow> Inl Unsupported
       | c # cs \<Rightarrow> if c = CHR ''^'' then parse_nodes cs [] else Inl Unsupported)"

text \<open>
  \<open>pathToRegex\<close>: the compiled expression and the list of keys, or the error that the
  constructor throws.
\<close>

definition pathToRegex :: "string \<Rightarrow> regexp_error + (regexp \<times> string list)" where
  "pathToRegex path =
     (case replace_params (escape_slashes (cleanPath path)) of
        (regexStr, keys) \<Rightarrow>
          (case RegExp (''^'' @ regexStr @ ''$'') of
             Inl e \<Rightarrow> Inl e
           | Inr regex \<Rightarrow> Inr (regex, keys)))"

subsection \<open>Matching\<close>

text \<open>
  \<open>str.match(regex)\<close> for an anchored expression: \<open>None\<close> is JavaScript's \<open>null\<close>;
  otherwise the named groups with their values, in the order of the groups. A group
  \<open>[^\/]+\<close> is greedy: it first takes every character up to the next slash and gives
  characters back one at a time, down to one character, until the rest matches.
\<close>

fun first_some :: "('a \<Rightarrow> 'b option) \<Rightarrow> 'a list \<Rightarrow> 'b option" where
  "first_some f [] = None"
| "first_some f (x # xs) = (case f x of Some y \<Rightarrow> Some y | None \<Rightarrow> first_some f xs)"

type_synonym groups = "(string \<times> string) list"

primrec match_nodes :: "regexp \<Rightarrow> string \<Rightarrow> groups option" where
  "match_nodes [] s = (if s = [] then Some [] else None)"
| "match_nodes (nd # nds) s =
     (case nd of
        Literal c \<Rightarrow>
          (case s of [] \<Rightarrow> None | d # ds \<Rightarrow> if d = c then match_nodes nds ds else None)
      | NamedGroup k \<Rightarrow>
          first_some
            (\<lambda>n. map_option (\<lambda>g. (k, take n s) # g) (match_nodes nds (drop n s)))
            (rev [1..<Suc (length (takeWhile (\<lambda>c. c \<noteq> CHR ''/'') s))]))"

definition str_match :: "string \<Rightarrow> regexp \<Rightarrow> groups option" where
  "str_match s regex = match_nodes regex s"

section \<open>JSON values\<close>

text \<open>
  The values that \<open>res.json\<close> serialises and that \<open>JSON.parse\<close> returns. Numbers are
  the integers that JavaScript represents exactly (below \<open>2^53\<close> in magnitude), which
  \<open>JSON.stringify\<close> writes in decimal digits (a larger number, or a fraction, is written
  otherwise and is not among these values). \<open>JSON_stringify\<close> writes a value the way
  \<open>JSON.stringify\<close> does, without white space, with the members of an object in their
  order.
\<close>

datatype json = JNull | JBool bool | JNum int | JStr string
  | JArr "json list" | JObj "(string \<times> json) list"

definition hex_digit :: "nat \<Rightarrow> char" where
  "hex_digit n = (''0123456789abcdef'' ! (n mod 16))"

definition escape_char :: "char \<Rightarrow> string" where
  "escape_char c =
     (if c = CHR 0x22 then [backslash, CHR 0x22]
      else if c = backslash then [backslash, backslash]
      else if c = CHR 0x08 then [backslash, CHR ''b'']
      else if c = CHR 0x0C then [backslash, CHR ''f'']
      else if c = CHR 0x0A then [backslash, CHR ''n'']
      else if c = CHR 0x0D then [backslash, CHR ''r'']
      else if c = CHR 0x09 then [backslash, CHR ''t'']
      else if (of_char c :: nat) < 32 then
        [backslash, CHR ''u'', CHR ''0'', CHR ''0'',
         hex_digit ((of_char c :: nat) div 16), hex_digit (of_char c :: nat)]
      else [c])"

definition quote :: "string \<Rightarrow> string" where
  "quote s = [CHR 0x22] @ concat (map escape_char s) @ [CHR 0x22]"

fun digits :: "nat \<Rightarrow> string" where
  "digits n = (if n < 10 then [hex_digit n] else digits (n div 10) @ [hex_digit (n mod 10)])"

definition show_int :: "int \<Rightarrow> string" where
  "show_int k = (if k < 0 then ''-'' @ digits (nat (- k)) else digits (nat k))"

fun join_comma :: "string list \<Rightarrow> string" where
  "join_comma [] = []"
| "join_comma [x] = x"
| "join_comma (x # y # ys) = x @ '','' @ join_comma (y # ys)"

fun JSON_stringify :: "json \<Rightarrow> string"
  and stringify_members :: "(string \<times> json) list \<Rightarrow> string list" where
  "JSON_stringify JNull = ''null''"
| "JSON_stringify (JBool b) = (if b then ''true'' else ''false'')"
| "JSON_stringify (JNum k) = show_int k"
| "JSON_stringify (JStr s) = quote s"
| "JSON_stringify (JArr xs) = ''['' @ join_comma (map JSON_stringify xs) @ '']''"
| "JSON_stringify (JObj kvs) = ''{'' @ join_comma (stringify_members kvs) @ ''}''"
| "stringify_members [] = []"
| "stringify_members ((k, v) # kvs) =
     (quote k @ '':'' @ JSON_stringify v) # stringify_members kvs"

section \<open>The request, the response and the functions of an application\<close>

text \<open>
  One request is served on a context that holds what the source keeps in \<open>req\<close>, in
  \<open>res\<close> and in the local variables \<open>i\<close> and \<open>j\<close> of \<open>handleRequest\<close>. The response
  object is Node's \<open>ServerResponse\<close>; the model keeps what the calls of the source depend
  on: the status code and the headers as they were set last, and how far the response
  has got: nothing sent, the header block sent, or the response finished. The field
  \<open>trace\<close> is a record of what ran and of what was sent, in order: it is not a variable
  of the source, and no function of the model reads it.
\<close>

datatype event =
    MiddlewareRun nat
  | RouteLookup
  | HandlerRun nat
  | NotFound
  | Caught nat
  | Ended nat string
  | SideEffect string

datatype progress = Open | HeadersSent | Finished

record ctx =
  req_method :: string
  req_url :: string
  req_host :: string
  stream :: "string list"
  params :: groups
  body :: json
  statusCode :: nat
  headers :: "(string \<times> string) list"
  res_state :: progress
  mw_i :: nat
  h_j :: nat
  trace :: "event list"

definition emit :: "event \<Rightarrow> ctx \<Rightarrow> ctx" where
  "emit e s = s\<lparr>trace := trace s @ [e]\<rparr>"

subsection \<open>The response\<close>

text \<open>
  A call on the response returns the new context (\<open>Inr\<close>) or throws an error with a message
  (\<open>Inl\<close>). Node's error \<open>ERR_HTTP_HEADERS_SENT\<close> has a message that names what was tried.
\<close>

definition ERR_HTTP_HEADERS_SENT :: "string \<Rightarrow> string" where
  "ERR_HTTP_HEADERS_SENT what = ''Cannot '' @ what @ '' headers after they are sent to the client''"

text \<open>\<open>res.status(code)\<close> sets \<open>res.statusCode\<close>.\<close>

definition res_status :: "nat \<Rightarrow> ctx \<Rightarrow> ctx" where
  "res_status code s = s\<lparr>statusCode := code\<rparr>"

definition put_header :: "string \<Rightarrow> string \<Rightarrow> (string \<times> string) list \<Rightarrow> (string \<times> string) list" where
  "put_header k v hs = (k, v) # filter (\<lambda>kv. fst kv \<noteq> k) hs"

text \<open>\<open>res.setHeader(name, value)\<close> throws once the header block was sent.\<close>

definition setHeader :: "string \<Rightarrow> string \<Rightarrow> ctx \<Rightarrow> string + ctx" where
  "setHeader k v s =
     (if res_state s = Open then Inr (s\<lparr>headers := put_header k v (headers s)\<rparr>)
      else Inl (ERR_HTTP_HEADERS_SENT ''set''))"

text \<open>
  \<open>res.end(data)\<close> sends the header block with the status code of the moment, unless it
  was sent before, then the data, and finishes the response. On a finished response it
  sends nothing and does not throw.
\<close>

definition res_end :: "string \<Rightarrow> ctx \<Rightarrow> ctx" where
  "res_end data s =
     (if res_state s = Finished then s
      else (emit (Ended (statusCode s) data) s)\<lparr>res_state := Finished\<rparr>)"

text \<open>\<open>res.json(data)\<close>: the content type, then \<open>res.end(JSON.stringify(data))\<close>.\<close>

definition res_json :: "json \<Rightarrow> ctx \<Rightarrow> string + ctx" where
  "res_json data s =
     (case setHeader ''Content-Type'' ''application/json'' s of
        Inl e \<Rightarrow> Inl e
      | Inr t \<Rightarrow> Inr (res_end (JSON_stringify data) t))"

text \<open>
  \<open>res.writeHead(code, headers)\<close> sets the status code and the headers and sends the
  header block; it throws when the header block was sent before.
\<close>

definition writeHead :: "nat \<Rightarrow> (string \<times> string) list \<Rightarrow> ctx \<Rightarrow> string + ctx" where
  "writeHead code hs s =
     (if res_state s = Open then
        Inr (s\<lparr>statusCode := code,
               headers := fold (\<lambda>kv. put_header (fst kv) (snd kv)) hs (headers s),
               res_state := HeadersSent\<rparr>)
      else Inl (ERR_HTTP_HEADERS_SENT ''write''))"

subsection \<open>Middleware and handlers\<close>

text \<open>
  A middleware or a handler is a function \<open>(req, res, next)\<close> of the application. It is
  modelled by what it does when it is called: looking at the context, it runs a
  sequence of statements, each a call on the response, a side effect of its own, a call
  of \<open>next()\<close>, or a \<open>throw\<close> of an error with a message. Everything runs synchronously, and
  a function does not catch what \<open>next()\<close> or a call on the response throws.
\<close>

datatype call = Status nat | Json json | End string | Perform string

datatype stmt = Do call | Next | Throw string

type_synonym script = "stmt list"

type_synonym handler = "ctx \<Rightarrow> script"

fun perform :: "call \<Rightarrow> ctx \<Rightarrow> string + ctx" where
  "perform (Status code) s = Inr (res_status code s)"
| "perform (Json data) s = res_json data s"
| "perform (End data) s = Inr (res_end data s)"
| "perform (Perform what) s = Inr (emit (SideEffect what) s)"

text \<open>
  How a call ends: it returns, or it throws an error with a message. \<open>OutOfFuel\<close> is not
  an outcome of the program: the two recursive functions below count their nesting
  depth down, and \<open>no_OutOfFuel\<close> shows that the depth they are started with is
  never used up.
\<close>

datatype result = Normal ctx | Raised string ctx | OutOfFuel

text \<open>The body of a function, with the continuation it was given as \<open>next\<close>.\<close>

fun run_body :: "script \<Rightarrow> (ctx \<Rightarrow> result) \<Rightarrow> ctx \<Rightarrow> result" where
  "run_body [] nxt s = Normal s"
| "run_body (Do c # rest) nxt s =
     (case perform c s of
        Inl msg \<Rightarrow> Raised msg s
      | Inr t \<Rightarrow> run_body rest nxt t)"
| "run_body (Throw msg # rest) nxt s = Raised msg s"
| "run_body (Next # rest) nxt s =
     (case nxt s of
        Normal t \<Rightarrow> run_body rest nxt t
      | Raised msg t \<Rightarrow> Raised msg t
      | OutOfFuel \<Rightarrow> OutOfFuel)"

text \<open>The statement \<open>res.status(code).json(data)\<close> of \<open>routeHandler\<close>.\<close>

definition status_json :: "nat \<Rightarrow> json \<Rightarrow> ctx \<Rightarrow> result" where
  "status_json code data s =
     (case res_json data (res_status code s) of
        Inl msg \<Rightarrow> Raised msg (res_status code s)
      | Inr t \<Rightarrow> Normal t)"

subsection \<open>The application: routes and middlewares\<close>

record route =
  route_method :: string
  regex :: regexp
  handlers :: "handler list"

record app =
  routes :: "route list"
  middlewares :: "handler list"

definition replicax :: app where
  "replicax = \<lparr>routes = [], middlewares = []\<rparr>"

text \<open>
  \<open>register(method, path, ...handler)\<close>: the route goes to the end of \<open>routes\<close>; when the
  constructor of the regular expression throws, nothing is registered.
\<close>

definition register :: "string \<Rightarrow> string \<Rightarrow> handler list \<Rightarrow> app \<Rightarrow> regexp_error + app" where
  "register method path handler a =
     (case pathToRegex path of
        Inl e \<Rightarrow> Inl e
      | Inr (re, keys) \<Rightarrow>
          Inr (a\<lparr>routes := routes a @ [\<lparr>route_method = method, regex = re, handlers = handler\<rparr>]\<rparr>))"

definition use :: "handler \<Rightarrow> app \<Rightarrow> app" where
  "use middleware a = a\<lparr>middlewares := middlewares a @ [middleware]\<rparr>"

definition get :: "string \<Rightarrow> handler list \<Rightarrow> app \<Rightarrow> regexp_error + app" where
  "get path handler a = register ''GET'' path handler a"

definition post :: "string \<Rightarrow> handler list \<Rightarrow> app \<Rightarrow> regexp_error + app" where
  "post path handler a = register ''POST'' path handler a"

definition put :: "string \<Rightarrow> handler list \<Rightarrow> app \<Rightarrow> regexp_error + app" where
  "put path handler a = register ''PUT'' path handler a"

definition patch :: "string \<Rightarrow> handler list \<Rightarrow> app \<Rightarrow> regexp_error + app" where
  "patch path handler a = register ''PATCH'' path handler a"

definition delete :: "string \<Rightarrow> handler list \<Rightarrow> app \<Rightarrow> regexp_error + app" where
  "delete path handler a = register ''DELETE'' path handler a"

section \<open>Serving a request\<close>

subsection \<open>The handlers of the matched route\<close>

definition internal_error :: json where
  "internal_error = JObj [(''error'', JStr ''Internal Server Error'')]"

definition not_found :: json where
  "not_found = JObj [(''error'', JStr ''Route not found'')]"

text \<open>
  The function \<open>next\<close> of \<open>routeHandler\<close>: it takes \<open>handlers[j++]\<close> and, when there is
  one, calls it with itself as continuation inside \<open>try\<close>; the \<open>catch\<close> answers 500,
  and what the \<open>catch\<close> throws itself goes to the caller of \<open>next\<close>.
\<close>

primrec next_handler :: "nat \<Rightarrow> handler list \<Rightarrow> ctx \<Rightarrow> result" where
  "next_handler 0 hs s = OutOfFuel"
| "next_handler (Suc n) hs s =
     (let j = h_j s; s1 = s\<lparr>h_j := j + 1\<rparr> in
      if j < length hs then
        (let s2 = emit (HandlerRun j) s1 in
         case run_body ((hs ! j) s2) (next_handler n hs) s2 of
           Raised msg t \<Rightarrow> status_json 500 internal_error (emit (Caught j) t)
         | r \<Rightarrow> r)
      else Normal s1)"

subsection \<open>Looking the route up\<close>

text \<open>
  The loop of \<open>routeHandler\<close> over \<open>routes\<close>: the first route whose expression matches
  the path and whose method is the request's gets the request; \<open>req.params\<close> becomes the
  groups of the match, \<open>j\<close> starts at 0. Behind the loop is the 404 answer.
\<close>

fun route_loop :: "route list \<Rightarrow> string \<Rightarrow> string \<Rightarrow> ctx \<Rightarrow> result" where
  "route_loop [] method pathname s = status_json 404 not_found (emit NotFound s)"
| "route_loop (r # rs) method pathname s =
     (case str_match pathname (regex r) of
        None \<Rightarrow> route_loop rs method pathname s
      | Some groups \<Rightarrow>
          if method = route_method r then
            next_handler (Suc (length (handlers r))) (handlers r) (s\<lparr>params := groups, h_j := 0\<rparr>)
          else route_loop rs method pathname s)"

definition routeHandler :: "route list \<Rightarrow> string \<Rightarrow> string \<Rightarrow> ctx \<Rightarrow> result" where
  "routeHandler rs method pathname s = route_loop rs method pathname (emit RouteLookup s)"

subsection \<open>The global middlewares\<close>

text \<open>
  \<open>runMiddlewares\<close> takes \<open>middlewares[i++]\<close>; without one it goes to \<open>routeHandler\<close>,
  otherwise it calls the middleware with itself as continuation.
\<close>

primrec runMiddlewares :: "nat \<Rightarrow> app \<Rightarrow> string \<Rightarrow> string \<Rightarrow> ctx \<Rightarrow> result" where
  "runMiddlewares 0 a method pathname s = OutOfFuel"
| "runMiddlewares (Suc n) a method pathname s =
     (let i = mw_i s; s1 = s\<lparr>mw_i := i + 1\<rparr> in
      if i < length (middlewares a) then
        (let s2 = emit (MiddlewareRun i) s1 in
         run_body ((middlewares a ! i) s2) (runMiddlewares n a method pathname) s2)
      else routeHandler (routes a) method pathname s1)"

subsection \<open>The body of the request\<close>

text \<open>
  \<open>parseBody\<close>: for POST, PUT and PATCH the chunks of the payload are read and
  concatenated, and \<open>req.body\<close> is what \<open>JSON.parse\<close> returns, or \<open>{}\<close> when it throws; for
  any other method \<open>req.body\<close> is \<open>{}\<close> and the payload is left alone. \<open>JSON.parse\<close> is the
  runtime's and a parameter here: \<open>None\<close> when it throws.
\<close>

definition parseBody :: "(string \<Rightarrow> json option) \<Rightarrow> ctx \<Rightarrow> ctx" where
  "parseBody JSON_parse s =
     (if req_method s \<in> set [''POST'', ''PUT'', ''PATCH''] then
        (case JSON_parse (concat (stream s)) of
           Some v \<Rightarrow> s\<lparr>stream := [], body := v\<rparr>
         | None \<Rightarrow> s\<lparr>stream := [], body := JObj []\<rparr>)
      else s\<lparr>body := JObj []\<rparr>)"

subsection \<open>\<open>handleRequest\<close>\<close>

record request =
  rq_method :: string
  rq_url :: string
  rq_host :: string
  rq_payload :: "string list"

text \<open>
  The context a request arrives with: nothing is parsed yet (\<open>JNull\<close> stands for the
  missing \<open>req.body\<close>), the status code is Node's default, nothing is sent.
\<close>

definition arrive :: "request \<Rightarrow> ctx" where
  "arrive rq = \<lparr>req_method = rq_method rq, req_url = rq_url rq, req_host = rq_host rq,
     stream = rq_payload rq, params = [], body = JNull, statusCode = 200, headers = [],
     res_state = Open, mw_i = 0, h_j = 0, trace = []\<rparr>"

text \<open>
  The \<open>catch\<close> of \<open>handleRequest\<close>. What it throws itself leaves \<open>handleRequest\<close>: the
  promise of the \<open>async\<close> function is rejected.
\<close>

definition server_error :: "string \<Rightarrow> ctx \<Rightarrow> result" where
  "server_error msg s =
     (case writeHead 500 [(''Content-Type'', ''application/json'')] s of
        Inl e \<Rightarrow> Raised e s
      | Inr t \<Rightarrow>
          Normal (res_end (JSON_stringify (JObj [(''error'', JStr ''Server error''),
                                                 (''message'', JStr msg)])) t))"

text \<open>
  \<open>new URL(req.url, base).pathname\<close> is the runtime's and a parameter: \<open>Inl msg\<close> when the
  constructor throws an error with that message, \<open>Inr p\<close> with the path name otherwise.
\<close>

definition handleRequest ::
  "(string \<Rightarrow> string \<Rightarrow> string + string) \<Rightarrow> (string \<Rightarrow> json option) \<Rightarrow> app \<Rightarrow> request \<Rightarrow> result" where
  "handleRequest URL_pathname JSON_parse a rq =
     (let s = arrive rq in
      case URL_pathname (rq_url rq) (rq_host rq) of
        Inl msg \<Rightarrow> server_error msg s
      | Inr p \<Rightarrow>
          (let pathname = cleanPath p;
               method = rq_method rq;
               s1 = parseBody JSON_parse (s\<lparr>params := []\<rparr>)
           in case runMiddlewares (Suc (length (middlewares a))) a method pathname (s1\<lparr>mw_i := 0\<rparr>) of
                Raised msg t \<Rightarrow> server_error msg t
              | r \<Rightarrow> r))"
section \<open>Vocabulary of the statements\<close>

subsection \<open>Calls and what they leave behind\<close>

text \<open>A function of the application that does the same whatever the context.\<close>

definition always :: "script \<Rightarrow> handler" where
  "always sc = (\<lambda>c. sc)"

text \<open>The context a call ends with, whether it returns or throws.\<close>

fun outcome :: "result \<Rightarrow> ctx option" where
  "outcome (Normal t) = Some t"
| "outcome (Raised msg t) = Some t"
| "outcome OutOfFuel = None"

text \<open>
  A property of the context a call ends with, returned or thrown (\<open>OutOfFuel\<close> is shown
  apart never to occur).
\<close>

fun holds :: "(ctx \<Rightarrow> bool) \<Rightarrow> result \<Rightarrow> bool" where
  "holds P (Normal t) = P t"
| "holds P (Raised msg t) = P t"
| "holds P OutOfFuel = True"

text \<open>The events that the engine itself records, as opposed to those of the response.\<close>

fun engine_event :: "event \<Rightarrow> bool" where
  "engine_event (Ended code d) = False"
| "engine_event (SideEffect w) = False"
| "engine_event e = True"

text \<open>
  A property of the context that no call on the response, no step of the route lookup
  and no step of the handler chain can break.
\<close>

definition stable :: "(ctx \<Rightarrow> bool) \<Rightarrow> bool" where
  "stable P \<longleftrightarrow> (\<forall>t. P t \<longrightarrow> (\<forall>c u. perform c t = Inr u \<longrightarrow> P u) \<and>
     (\<forall>e. engine_event e \<longrightarrow> P (emit e t)) \<and>
     (\<forall>j. P (t\<lparr>h_j := j\<rparr>)) \<and> (\<forall>g. P (t\<lparr>params := g\<rparr>)))"

text \<open>The responses that a record of events holds: status code and data of every one sent.\<close>

fun responses :: "event list \<Rightarrow> (nat \<times> string) list" where
  "responses [] = []"
| "responses (Ended code d # evs) = (code, d) # responses evs"
| "responses (e # evs) = responses evs"

text \<open>
  At most one response is sent, and none while the response is not finished.
\<close>

definition one_response :: "ctx \<Rightarrow> bool" where
  "one_response t \<longleftrightarrow> length (responses (trace t)) \<le> 1 \<and>
     (res_state t \<noteq> Finished \<longrightarrow> responses (trace t) = [])"

text \<open>
  How often a script calls \<open>next()\<close>: the calls in front of its first \<open>throw\<close>. A script
  with \<open>next_calls sc = 0\<close> does not call \<open>next()\<close>.
\<close>

fun next_calls :: "script \<Rightarrow> nat" where
  "next_calls [] = 0"
| "next_calls (Do c # rest) = next_calls rest"
| "next_calls (Next # rest) = Suc (next_calls rest)"
| "next_calls (Throw msg # rest) = 0"

text \<open>
  The first statement of a script that is not a call on the response or a side effect:
  \<open>Some Next\<close> when the script comes to call \<open>next()\<close>, \<open>Some (Throw msg)\<close> when it throws
  before that, \<open>None\<close> when it returns.
\<close>

fun first_stop :: "script \<Rightarrow> stmt option" where
  "first_stop [] = None"
| "first_stop (Do c # rest) = first_stop rest"
| "first_stop (Next # rest) = Some Next"
| "first_stop (Throw msg # rest) = Some (Throw msg)"

text \<open>
  A script that sends no response before its first \<open>next()\<close> or \<open>throw\<close>: the calls in
  front are \<open>res.status\<close> and side effects.
\<close>

fun unanswered :: "script \<Rightarrow> bool" where
  "unanswered [] = True"
| "unanswered (Do (Json d) # rest) = False"
| "unanswered (Do (End d) # rest) = False"
| "unanswered (Do c # rest) = unanswered rest"
| "unanswered (Next # rest) = True"
| "unanswered (Throw msg # rest) = True"

text \<open>A record of events in which the request went no further than middleware \<open>k\<close>.\<close>

definition quiet :: "nat \<Rightarrow> event list \<Rightarrow> bool" where
  "quiet k evs \<longleftrightarrow> (\<forall>i>k. MiddlewareRun i \<notin> set evs) \<and> RouteLookup \<notin> set evs \<and>
     NotFound \<notin> set evs \<and> (\<forall>j. HandlerRun j \<notin> set evs \<and> Caught j \<notin> set evs)"

text \<open>The events that a context has on top of \<open>base\<close> satisfy \<open>Q\<close>.\<close>

definition added :: "event list \<Rightarrow> (event list \<Rightarrow> bool) \<Rightarrow> ctx \<Rightarrow> bool" where
  "added base Q t \<longleftrightarrow> (\<exists>evs. trace t = base @ evs \<and> Q evs)"

text \<open>What a record holds behind the first occurrence of an event.\<close>

definition events_after :: "event \<Rightarrow> event list \<Rightarrow> event list" where
  "events_after e evs = drop 1 (dropWhile (\<lambda>x. x \<noteq> e) evs)"

definition no_later_handler :: "nat \<Rightarrow> event list \<Rightarrow> bool" where
  "no_later_handler k evs \<longleftrightarrow> (\<forall>m>k. HandlerRun m \<notin> set evs)"

text \<open>When the error of handler \<open>k\<close> was caught, no handler behind \<open>k\<close> runs after it.\<close>

definition error_ends_chain :: "nat \<Rightarrow> event list \<Rightarrow> bool" where
  "error_ends_chain k evs \<longleftrightarrow>
     (Caught k \<in> set evs \<longrightarrow> (\<forall>m>k. HandlerRun m \<notin> set (events_after (Caught k) evs)))"

text \<open>
  A function of the application that does not look at \<open>req.url\<close>, and a result with
  \<open>req.url\<close> replaced.
\<close>

definition reads_no_url :: "handler \<Rightarrow> bool" where
  "reads_no_url h \<longleftrightarrow> (\<forall>c u. h (c\<lparr>req_url := u\<rparr>) = h c)"

fun with_url :: "string \<Rightarrow> result \<Rightarrow> result" where
  "with_url u (Normal t) = Normal (t\<lparr>req_url := u\<rparr>)"
| "with_url u (Raised msg t) = Raised msg (t\<lparr>req_url := u\<rparr>)"
| "with_url u OutOfFuel = OutOfFuel"

subsection \<open>Patterns made of segments\<close>

text \<open>
  A pattern \<open>/seg/seg/...\<close> together with a path of its shape: a segment is either fixed
  text, or a parameter \<open>:name\<close> with the text that stands in its place in the path.
\<close>

datatype segment = Fixed string | Param string string

definition plain_char :: "char \<Rightarrow> bool" where
  "plain_char c \<longleftrightarrow> \<not> is_metachar c \<and> c \<noteq> CHR ''/'' \<and> c \<noteq> CHR '':''"

text \<open>A parameter name that the regular expression accepts as a group name.\<close>

definition valid_name :: "string \<Rightarrow> bool" where
  "valid_name k \<longleftrightarrow> k \<noteq> [] \<and> list_all is_key_char k \<and> \<not> is_digit (hd k)"

text \<open>
  Fixed text is not empty and has no metacharacter, slash or colon; the text in the
  place of a parameter is not empty and has no slash.
\<close>

fun well_formed :: "segment \<Rightarrow> bool" where
  "well_formed (Fixed l) \<longleftrightarrow> l \<noteq> [] \<and> list_all plain_char l"
| "well_formed (Param k v) \<longleftrightarrow> valid_name k \<and> v \<noteq> [] \<and> CHR ''/'' \<notin> set v"

fun pattern_of :: "segment list \<Rightarrow> string" where
  "pattern_of [] = []"
| "pattern_of (Fixed l # sgs) = CHR ''/'' # l @ pattern_of sgs"
| "pattern_of (Param k v # sgs) = CHR ''/'' # CHR '':'' # k @ pattern_of sgs"

fun path_of :: "segment list \<Rightarrow> string" where
  "path_of [] = []"
| "path_of (Fixed l # sgs) = CHR ''/'' # l @ path_of sgs"
| "path_of (Param k v # sgs) = CHR ''/'' # v @ path_of sgs"

fun names_of :: "segment list \<Rightarrow> string list" where
  "names_of [] = []"
| "names_of (Fixed l # sgs) = names_of sgs"
| "names_of (Param k v # sgs) = k # names_of sgs"

fun bindings :: "segment list \<Rightarrow> groups" where
  "bindings [] = []"
| "bindings (Fixed l # sgs) = bindings sgs"
| "bindings (Param k v # sgs) = (k, v) # bindings sgs"

text \<open>The text and the nodes of the regular expression of such a pattern.\<close>

fun source_of :: "segment list \<Rightarrow> string" where
  "source_of [] = []"
| "source_of (Fixed l # sgs) = backslash # CHR ''/'' # l @ source_of sgs"
| "source_of (Param k v # sgs) = backslash # CHR ''/'' # group_src k @ source_of sgs"

fun nodes_of :: "segment list \<Rightarrow> regexp" where
  "nodes_of [] = []"
| "nodes_of (Fixed l # sgs) = Literal CHR ''/'' # map Literal l @ nodes_of sgs"
| "nodes_of (Param k v # sgs) = Literal CHR ''/'' # NamedGroup k # nodes_of sgs"

subsection \<open>Patterns read character by character\<close>

text \<open>
  What \<open>pathToRegex\<close> makes of a cleaned pattern without metacharacters, read from the
  left: a colon with name characters behind it is a group named by the longest run of
  them, wherever the colon stands; every other character is itself.
\<close>

function tokens :: "string \<Rightarrow> regexp" where
  "tokens [] = []"
| "tokens (c # cs) =
     (if c = CHR '':'' \<and> takeWhile is_key_char cs \<noteq> [] then
        NamedGroup (takeWhile is_key_char cs) # tokens (dropWhile is_key_char cs)
      else Literal c # tokens cs)"
  by pat_completeness auto
termination
  by (relation "measure length") (auto simp: le_imp_less_Suc length_dropWhile_le)

fun group_names :: "regexp \<Rightarrow> string list" where
  "group_names [] = []"
| "group_names (Literal c # nds) = group_names nds"
| "group_names (NamedGroup k # nds) = k # group_names nds"

text \<open>
  The text that an expression describes once every group is given its value: the
  literal characters as they are, each group replaced by the next value.
\<close>

fun fill :: "regexp \<Rightarrow> string list \<Rightarrow> string" where
  "fill [] vs = []"
| "fill (Literal c # nds) vs = c # fill nds vs"
| "fill (NamedGroup k # nds) [] = fill nds []"
| "fill (NamedGroup k # nds) (v # vs) = v @ fill nds vs"

text \<open>
  The compilation as the specification words it, for comparison: the pattern is split
  at the slashes, a segment of the form \<open>:name\<close> is a group, and every other segment is
  matched character by character, colons included.
\<close>

definition spec_segment :: "string \<Rightarrow> regexp" where
  "spec_segment seg =
     (case seg of
        [] \<Rightarrow> []
      | c # k \<Rightarrow> if c = CHR '':'' \<and> k \<noteq> [] \<and> list_all is_key_char k then [NamedGroup k]
                else map Literal seg)"

function spec_tokens :: "string \<Rightarrow> regexp" where
  "spec_tokens [] = []"
| "spec_tokens (c # cs) =
     (if c = CHR ''/'' then
        Literal c # spec_segment (takeWhile (\<lambda>x. x \<noteq> CHR ''/'') cs) @
          spec_tokens (dropWhile (\<lambda>x. x \<noteq> CHR ''/'') cs)
      else
        spec_segment (c # takeWhile (\<lambda>x. x \<noteq> CHR ''/'') cs) @
          spec_tokens (dropWhile (\<lambda>x. x \<noteq> CHR ''/'') cs))"
  by pat_completeness auto
termination
  by (relation "measure length") (auto simp: le_imp_less_Suc length_dropWhile_le)

subsection \<open>Examples\<close>

text \<open>
  The handler of the README's route with a parameter:
  \<open>res.json({ userId: req.params.id })\<close>.
\<close>

definition show_user :: handler where
  "show_user c =
     [Do (Json (case map_of (params c) ''id'' of
                  None \<Rightarrow> JObj []
                | Some v \<Rightarrow> JObj [(''userId'', JStr v)]))]"

definition show_me :: handler where
  "show_me c = [Do (Json (JObj [(''me'', JBool True)]))]"

text \<open>\<open>app.get('/users/:id', show_user); app.get('/users/me', show_me)\<close>.\<close>

definition users_app :: app where
  "users_app =
     (case get ''/users/:id'' [show_user] replicax of
        Inl e \<Rightarrow> replicax
      | Inr a \<Rightarrow> (case get ''/users/me'' [show_me] a of Inl e \<Rightarrow> a | Inr b \<Rightarrow> b))"

definition users_id :: regexp where
  "users_id = map Literal ''/users/'' @ [NamedGroup ''id'']"

definition users_me :: regexp where
  "users_me = map Literal ''/users/me''"

text \<open>
  Stand-ins for the two functions of the runtime: a URL that is nothing but a path, and
  a parser that knows one text.
\<close>

definition path_only :: "string \<Rightarrow> string \<Rightarrow> string + string" where
  "path_only u h = Inr u"

definition parse_a1 :: "string \<Rightarrow> json option" where
  \<open>parse_a1 s = (if s = ''{"a":1}'' then Some (JObj [(''a'', JNum 1)]) else None)\<close>

definition request_for :: "string \<Rightarrow> string \<Rightarrow> string list \<Rightarrow> request" where
  "request_for m u chunks = \<lparr>rq_method = m, rq_url = u, rq_host = ''localhost'', rq_payload = chunks\<rparr>"

text \<open>
  Middlewares: one that notes the request and passes it on, the README's
  authorisation check on a request without the header, and one that throws.
\<close>

definition logger :: handler where
  "logger = always [Do (Perform ''log''), Next]"

definition deny :: handler where
  "deny = always [Do (Status 401), Do (Json (JObj [(''error'', JStr ''Unauthorized'')]))]"

definition broken :: handler where
  "broken = always [Throw ''bad token'']"

text \<open>\<open>app.use(logger); app.use(deny)\<close> and \<open>app.use(logger); app.use(broken)\<close>.\<close>

definition guarded_app :: app where
  "guarded_app = use deny (use logger users_app)"

definition broken_app :: app where
  "broken_app = use broken (use logger users_app)"

text \<open>An application with the one route \<open>app.get(path, ...hs)\<close>, and handlers for it.\<close>

definition one_route :: "string \<Rightarrow> handler list \<Rightarrow> app" where
  "one_route path hs = (case get path hs replicax of Inl e \<Rightarrow> replicax | Inr a \<Rightarrow> a)"

definition twice :: handler where
  "twice = always [Next, Next]"

definition silent :: handler where
  "silent = always []"

definition third :: handler where
  "third = always [Do (Perform ''third'')]"

definition faulty :: handler where
  "faulty = always [Throw ''boom'']"

definition first :: handler where
  "first = always [Do (Perform ''first''), Next]"

definition chain :: regexp where
  "chain = map Literal ''/chain''"

text \<open>\<open>app.use(logger)\<close> on the application of the two routes.\<close>

definition logged_app :: app where
  "logged_app = use logger users_app"

text \<open>
  A middleware that answers only when \<open>next()\<close> has returned, in front of one that does
  nothing: \<open>app.use(late); app.use(silent)\<close>.
\<close>

definition late :: handler where
  "late = always [Next, Do (End ''late'')]"

definition late_app :: app where
  "late_app = use silent (use late users_app)"

text \<open>A handler that answers and then throws.\<close>

definition hasty :: handler where
  "hasty = always [Do (Json (JObj [(''ok'', JBool True)])), Throw ''boom'']"

text \<open>\<open>app.use(hasty)\<close> on the application of the two routes.\<close>

definition hasty_app :: app where
  "hasty_app = use hasty users_app"

text \<open>
  A middleware that answers and then passes the request on: \<open>app.use(eager)\<close> on the
  application of the two routes.
\<close>

definition eager :: handler where
  "eager = always [Do (Json (JObj [(''ok'', JBool True)])), Next]"

definition eager_app :: app where
  "eager_app = use eager users_app"

text \<open>An application none of whose functions looks at \<open>req.url\<close>.\<close>

definition url_blind :: "app \<Rightarrow> bool" where
  "url_blind a \<longleftrightarrow> (\<forall>h\<in>set (middlewares a). reads_no_url h) \<and>
     (\<forall>r\<in>set (routes a). \<forall>h\<in>set (handlers r). reads_no_url h)"

text \<open>A handler that answers with the URL of the request: \<open>res.end(req.url)\<close>.\<close>

definition echo :: handler where
  "echo c = [Do (End (req_url c))]"
section \<open>Properties\<close>

subsection \<open>Paths, patterns and their expressions\<close>

lemma strip_trailing_slashes_append:
  "strip_trailing_slashes (p @ replicate n CHR ''/'') = strip_trailing_slashes p"
proof -
  have "dropWhile (\<lambda>c. c = CHR ''/'') (replicate n CHR ''/'' @ xs) = dropWhile (\<lambda>c. c = CHR ''/'') xs" for xs
    by (induction n) auto
  then show ?thesis by (simp add: strip_trailing_slashes_def)
qed

lemma cleanPath_append_slashes: "cleanPath (p @ replicate n CHR ''/'') = cleanPath p"
  by (simp add: cleanPath_def strip_trailing_slashes_append)

lemma cleanPath_slashes: "cleanPath (replicate n CHR ''/'') = ''/''"
  using cleanPath_append_slashes[of "[]" n] by (simp add: cleanPath_def strip_trailing_slashes_def)

lemma strip_trailing_slashes_last:
  "strip_trailing_slashes p \<noteq> [] \<Longrightarrow> last (strip_trailing_slashes p) \<noteq> CHR ''/''"
proof -
  assume "strip_trailing_slashes p \<noteq> []"
  then have ne: "dropWhile (\<lambda>c. c = CHR ''/'') (rev p) \<noteq> []"
    by (simp add: strip_trailing_slashes_def)
  then have "hd (dropWhile (\<lambda>c. c = CHR ''/'') (rev p)) \<noteq> CHR ''/''"
    using hd_dropWhile[of "\<lambda>c. c = CHR ''/''" "rev p"] by simp
  with ne show ?thesis
    by (simp add: strip_trailing_slashes_def last_rev)
qed

lemma strip_trailing_slashes_decomp:
  "\<exists>m. p = strip_trailing_slashes p @ replicate m CHR ''/''"
proof -
  let ?t = "takeWhile (\<lambda>c. c = CHR ''/'') (rev p)"
  have "rev p = ?t @ dropWhile (\<lambda>c. c = CHR ''/'') (rev p)"
    by simp
  then have "rev (rev p) = rev (?t @ dropWhile (\<lambda>c. c = CHR ''/'') (rev p))"
    by (rule arg_cong)
  then have "p = rev (dropWhile (\<lambda>c. c = CHR ''/'') (rev p)) @ rev ?t"
    by (simp only: rev_rev_ident rev_append)
  then have a: "p = strip_trailing_slashes p @ rev ?t"
    by (simp only: strip_trailing_slashes_def)
  have "?t = replicate (length ?t) CHR ''/''"
    by (rule replicate_eqI) (auto dest: set_takeWhileD)
  then have "rev ?t = replicate (length ?t) CHR ''/''"
    by (metis rev_replicate)
  with a show ?thesis by metis
qed

lemma key_char_facts:
  "is_key_char c \<Longrightarrow> c \<noteq> CHR ''/'' \<and> c \<noteq> CHR '':'' \<and> c \<noteq> backslash \<and> c \<noteq> CHR ''>'' \<and> \<not> is_metachar c"
  by (auto simp: is_key_char_def is_digit_def backslash_def is_metachar_def)

lemma not_key_char: "\<not> is_key_char backslash" "\<not> is_key_char CHR ''>''" "\<not> is_key_char CHR ''/''"
  using key_char_facts by blast+

lemma strip_trailing_slashes_id:
  "p = [] \<or> last p \<noteq> CHR ''/'' \<Longrightarrow> strip_trailing_slashes p = p"
  by (cases p rule: rev_cases) (auto simp: strip_trailing_slashes_def)

lemma pattern_of_Nil: "pattern_of sgs = [] \<longleftrightarrow> sgs = []"
  by (cases sgs rule: pattern_of.cases) simp_all

lemma pattern_of_last:
  "sgs \<noteq> [] \<Longrightarrow> list_all well_formed sgs \<Longrightarrow>
   pattern_of sgs \<noteq> [] \<and> last (pattern_of sgs) \<noteq> CHR ''/''"
proof (induction sgs rule: pattern_of.induct)
  case 1
  then show ?case by simp
next
  case (2 l sgs)
  show ?case
  proof (cases "sgs = []")
    case True
    from 2(3) have "l \<noteq> []" "list_all plain_char l" by simp_all
    then have "last l \<noteq> CHR ''/''"
      using last_in_set[of l] by (auto simp: list_all_iff plain_char_def)
    with True \<open>l \<noteq> []\<close> show ?thesis by simp
  next
    case False
    with 2 have "pattern_of sgs \<noteq> []" "last (pattern_of sgs) \<noteq> CHR ''/''" by simp_all
    then show ?thesis by simp
  qed
next
  case (3 k v sgs)
  show ?case
  proof (cases "sgs = []")
    case True
    from 3(3) have "k \<noteq> []" "list_all is_key_char k" by (simp_all add: valid_name_def)
    then have "last k \<noteq> CHR ''/''"
      using last_in_set[of k] key_char_facts[of "last k"] by (auto simp: list_all_iff)
    with True \<open>k \<noteq> []\<close> show ?thesis by simp
  next
    case False
    with 3 have "pattern_of sgs \<noteq> []" "last (pattern_of sgs) \<noteq> CHR ''/''" by simp_all
    then show ?thesis by simp
  qed
qed

lemma cleanPath_pattern_of:
  "sgs \<noteq> [] \<Longrightarrow> list_all well_formed sgs \<Longrightarrow> cleanPath (pattern_of sgs) = pattern_of sgs"
proof -
  assume "sgs \<noteq> []" "list_all well_formed sgs"
  then have a: "pattern_of sgs \<noteq> []" "last (pattern_of sgs) \<noteq> CHR ''/''"
    using pattern_of_last by blast+
  then have "strip_trailing_slashes (pattern_of sgs) = pattern_of sgs"
    by (intro strip_trailing_slashes_id) simp
  with a show ?thesis by (simp add: cleanPath_def)
qed

lemma escape_slashes_append:
  "escape_slashes (a @ b) = escape_slashes a @ escape_slashes b"
  by (simp add: escape_slashes_def)

lemma escape_slashes_plain: "CHR ''/'' \<notin> set l \<Longrightarrow> escape_slashes l = l"
  by (induction l) (auto simp: escape_slashes_def)

lemma escape_slashes_Cons:
  "escape_slashes (c # cs) = (if c = CHR ''/'' then [backslash, CHR ''/''] else [c]) @ escape_slashes cs"
  by (simp add: escape_slashes_def)

lemma replace_params_plain:
  "CHR '':'' \<notin> set l \<Longrightarrow>
   replace_params (l @ rest) = (l @ fst (replace_params rest), snd (replace_params rest))"
  by (induction l) (auto split: prod.splits)

lemma replace_params_param:
  assumes "k \<noteq> []" and "list_all is_key_char k" and "rest = [] \<or> \<not> is_key_char (hd rest)"
  shows "replace_params (CHR '':'' # k @ rest) =
     (group_src k @ fst (replace_params rest), k # snd (replace_params rest))"
proof -
  have t: "takeWhile is_key_char (k @ rest) = k"
    using assms(2,3) by (cases rest) (auto simp: list_all_iff takeWhile_tail)
  have d: "dropWhile is_key_char (k @ rest) = rest"
    using assms(2,3) by (cases rest) (auto simp: list_all_iff dropWhile_append2)
  show ?thesis
    using assms(1) by (simp add: t d split: prod.splits)
qed

lemma replace_params_pattern:
  "list_all well_formed sgs \<Longrightarrow>
   replace_params (escape_slashes (pattern_of sgs)) = (source_of sgs, names_of sgs)"
proof (induction sgs rule: pattern_of.induct)
  case 1
  then show ?case by (simp add: escape_slashes_def)
next
  case (2 l sgs)
  then have l: "CHR ''/'' \<notin> set l" "CHR '':'' \<notin> set l"
    by (auto simp: list_all_iff plain_char_def)
  from 2 have IH: "replace_params (escape_slashes (pattern_of sgs)) = (source_of sgs, names_of sgs)"
    by simp
  have e: "escape_slashes (pattern_of (Fixed l # sgs)) =
      (backslash # CHR ''/'' # l) @ escape_slashes (pattern_of sgs)"
    using l by (simp add: escape_slashes_Cons escape_slashes_append escape_slashes_plain)
  have "CHR '':'' \<notin> set (backslash # CHR ''/'' # l)"
    using l by (simp add: backslash_def)
  from replace_params_plain[OF this, of "escape_slashes (pattern_of sgs)"] IH show ?case
    unfolding e by (simp del: replace_params.simps)
next
  case (3 k v sgs)
  then have k: "k \<noteq> []" "list_all is_key_char k" "CHR ''/'' \<notin> set k"
    by (auto simp: valid_name_def list_all_iff dest: key_char_facts)
  from 3 have IH: "replace_params (escape_slashes (pattern_of sgs)) = (source_of sgs, names_of sgs)"
    by simp
  have e: "escape_slashes (pattern_of (Param k v # sgs)) =
      [backslash, CHR ''/''] @ (CHR '':'' # k @ escape_slashes (pattern_of sgs))"
    using k by (simp add: escape_slashes_Cons escape_slashes_append escape_slashes_plain)
  have h: "escape_slashes (pattern_of sgs) = [] \<or> \<not> is_key_char (hd (escape_slashes (pattern_of sgs)))"
    by (cases sgs rule: pattern_of.cases)
       (simp_all add: escape_slashes_Cons not_key_char, simp add: escape_slashes_def)
  have p: "replace_params (CHR '':'' # k @ escape_slashes (pattern_of sgs)) =
      (group_src k @ source_of sgs, k # names_of sgs)"
    unfolding replace_params_param[OF k(1,2) h] IH by simp
  have "CHR '':'' \<notin> set [backslash, CHR ''/'']"
    by (simp add: backslash_def)
  from replace_params_plain[OF this, of "CHR '':'' # k @ escape_slashes (pattern_of sgs)"] show ?case
    unfolding e p by (simp del: replace_params.simps)
qed

lemma not_metachar_facts:
  "\<not> is_metachar c \<Longrightarrow> c \<noteq> CHR ''$'' \<and> c \<noteq> backslash \<and> c \<noteq> CHR ''(''"
  by (auto simp: is_metachar_def)

lemma parse_nodes_plain:
  "list_all (\<lambda>c. \<not> is_metachar c) l \<Longrightarrow>
   parse_nodes (l @ rest) seen =
     (case parse_nodes rest seen of Inl e \<Rightarrow> Inl e | Inr nds \<Rightarrow> Inr (map Literal l @ nds))"
proof (induction l)
  case Nil
  then show ?case by (simp split: sum.splits)
next
  case (Cons c l)
  then have c: "c \<noteq> CHR ''$''" "c \<noteq> backslash" "c \<noteq> CHR ''(''" "\<not> is_metachar c"
    using not_metachar_facts[of c] by simp_all
  from Cons have IH: "parse_nodes (l @ rest) seen =
     (case parse_nodes rest seen of Inl e \<Rightarrow> Inl e | Inr nds \<Rightarrow> Inr (map Literal l @ nds))"
    by simp
  have "parse_nodes ((c # l) @ rest) seen = cons_node (Literal c) (parse_nodes (l @ rest) seen)"
    using c by simp
  then show ?case
    unfolding IH by (simp add: cons_node_def split: sum.splits)
qed

lemma parse_nodes_slash:
  "parse_nodes (backslash # CHR ''/'' # rest) seen = cons_node (Literal CHR ''/'') (parse_nodes rest seen)"
  by (simp add: backslash_def)

lemma strip_prefix_append: "strip_prefix p (p @ r) = Some r"
  by (induction p) simp_all

lemma take_group_src:
  assumes "list_all is_key_char k"
  shows "take_group (''?<'' @ k @ ''>[^'' @ [backslash] @ ''/]+)'' @ rest) = Some (k, rest)"
proof -
  let ?tail = "''>[^'' @ [backslash] @ ''/]+)''"
  have t: "takeWhile is_key_char (k @ ?tail @ rest) = k"
    using assms by (simp add: list_all_iff takeWhile_tail not_key_char)
  have d: "dropWhile is_key_char (k @ ?tail @ rest) = ?tail @ rest"
    using assms by (simp add: list_all_iff dropWhile_append2 not_key_char)
  have "strip_prefix ''?<'' (''?<'' @ k @ ?tail @ rest) = Some (k @ ?tail @ rest)"
    by (rule strip_prefix_append)
  moreover have "strip_prefix ?tail (?tail @ rest) = Some rest"
    by (rule strip_prefix_append)
  ultimately show ?thesis
    unfolding take_group_def using t d by (simp del: strip_prefix.simps)
qed

lemma parse_nodes_group:
  assumes "valid_name k" and "k \<notin> set seen"
  shows "parse_nodes (group_src k @ rest) seen =
     cons_node (NamedGroup k) (parse_nodes rest (k # seen))"
proof -
  have g: "group_src k @ rest = CHR ''('' # (''?<'' @ k @ ''>[^'' @ [backslash] @ ''/]+)'' @ rest)"
    by (simp add: group_src_def)
  have tg: "take_group (''?<'' @ k @ ''>[^'' @ [backslash] @ ''/]+)'' @ rest) = Some (k, rest)"
    using assms(1) by (intro take_group_src) (simp add: valid_name_def)
  have "CHR ''('' \<noteq> backslash" by (simp add: backslash_def)
  then show ?thesis
    unfolding g using assms tg
    by (subst parse_nodes.simps) (simp add: valid_name_def del: parse_nodes.simps)
qed

lemma parse_nodes_source:
  "list_all well_formed sgs \<Longrightarrow> distinct (names_of sgs) \<Longrightarrow> set (names_of sgs) \<inter> set seen = {} \<Longrightarrow>
   parse_nodes (source_of sgs @ ''$'') seen = Inr (nodes_of sgs)"
proof (induction sgs arbitrary: seen rule: source_of.induct)
  case 1
  then show ?case by simp
next
  case (2 l sgs)
  then have IH: "parse_nodes (source_of sgs @ ''$'') seen = Inr (nodes_of sgs)"
    by simp
  from 2 have "list_all (\<lambda>c. \<not> is_metachar c) l"
    by (simp add: list_all_iff plain_char_def)
  from parse_nodes_plain[OF this, of "source_of sgs @ ''$''" seen] IH
  have "parse_nodes (l @ source_of sgs @ ''$'') seen = Inr (map Literal l @ nodes_of sgs)"
    by simp
  then show ?case
    using parse_nodes_slash[of "l @ source_of sgs @ ''$''" seen]
    by (simp add: cons_node_def del: parse_nodes.simps)
next
  case (3 k v sgs)
  then have k: "valid_name k" "k \<notin> set seen" by auto
  from 3 have IH: "parse_nodes (source_of sgs @ ''$'') (k # seen) = Inr (nodes_of sgs)"
    by (intro 3(1)) auto
  have "parse_nodes (group_src k @ source_of sgs @ ''$'') seen = Inr (NamedGroup k # nodes_of sgs)"
    unfolding parse_nodes_group[OF k] IH by (simp add: cons_node_def)
  then show ?case
    using parse_nodes_slash[of "group_src k @ source_of sgs @ ''$''" seen]
    by (simp add: cons_node_def del: parse_nodes.simps)
qed

lemma pathToRegex_pattern_of:
  assumes "sgs \<noteq> []" and "list_all well_formed sgs" and "distinct (names_of sgs)"
  shows "pathToRegex (pattern_of sgs) = Inr (nodes_of sgs, names_of sgs)"
  using parse_nodes_source[OF assms(2,3), of "[]"]
  by (simp add: pathToRegex_def cleanPath_pattern_of[OF assms(1,2)] replace_params_pattern[OF assms(2)]
      RegExp_def del: parse_nodes.simps)

lemma match_nodes_literals:
  "match_nodes (map Literal l @ nds) (l @ s) = match_nodes nds s"
  by (induction l) simp_all

lemma match_nodes_group:
  assumes "v \<noteq> []" and "CHR ''/'' \<notin> set v" and "s = [] \<or> hd s = CHR ''/''"
    and "match_nodes nds s = Some g"
  shows "match_nodes (NamedGroup k # nds) (v @ s) = Some ((k, v) # g)"
proof -
  have t: "takeWhile (\<lambda>c. c \<noteq> CHR ''/'') (v @ s) = v"
    using assms(2,3) by (cases s) (auto simp: takeWhile_tail)
  from assms(1) obtain n where n: "length v = Suc n" by (cases v) auto
  have "rev [1..<Suc (length v)] = length v # rev [1..<length v]"
    using n by simp
  then show ?thesis
    using assms(4) by (simp add: t)
qed

lemma path_of_head: "path_of sgs = [] \<or> hd (path_of sgs) = CHR ''/''"
  by (cases sgs rule: path_of.cases) simp_all

lemma match_nodes_path_of:
  "list_all well_formed sgs \<Longrightarrow> match_nodes (nodes_of sgs) (path_of sgs) = Some (bindings sgs)"
proof (induction sgs rule: path_of.induct)
  case 1
  then show ?case by simp
next
  case (2 l sgs)
  then show ?case
    using match_nodes_literals[of l "nodes_of sgs" "path_of sgs"] by simp
next
  case (3 k v sgs)
  then have "match_nodes (nodes_of sgs) (path_of sgs) = Some (bindings sgs)" by simp
  from match_nodes_group[OF _ _ path_of_head this, of v k] 3(2) show ?case
    by simp
qed

lemma escape_slashes_Nil: "escape_slashes [] = []"
  by (simp add: escape_slashes_def)

lemma takeWhile_escape_slashes:
  "takeWhile is_key_char (escape_slashes cs) = takeWhile is_key_char cs"
  by (induction cs) (auto simp: escape_slashes_Cons escape_slashes_Nil not_key_char)

lemma dropWhile_escape_slashes:
  "dropWhile is_key_char (escape_slashes cs) = escape_slashes (dropWhile is_key_char cs)"
  by (induction cs) (auto simp: escape_slashes_Cons escape_slashes_Nil not_key_char)

lemma replace_params_capture:
  assumes "takeWhile is_key_char cs \<noteq> []"
  shows "replace_params (escape_slashes (CHR '':'' # cs)) =
     (group_src (takeWhile is_key_char cs) @ fst (replace_params (escape_slashes (dropWhile is_key_char cs))),
      takeWhile is_key_char cs # snd (replace_params (escape_slashes (dropWhile is_key_char cs))))"
proof -
  have "escape_slashes (CHR '':'' # cs) = CHR '':'' # escape_slashes cs"
    by (simp add: escape_slashes_Cons)
  then show ?thesis
    using assms
    by (simp add: takeWhile_escape_slashes dropWhile_escape_slashes split: prod.splits)
qed

lemma replace_params_slash:
  "replace_params (escape_slashes (CHR ''/'' # cs)) =
     (backslash # CHR ''/'' # fst (replace_params (escape_slashes cs)),
      snd (replace_params (escape_slashes cs)))"
  using replace_params_plain[of "[backslash, CHR ''/'']" "escape_slashes cs"]
  by (simp add: escape_slashes_Cons backslash_def del: replace_params.simps)

lemma replace_params_other:
  assumes "c \<noteq> CHR ''/''" and "\<not> (c = CHR '':'' \<and> takeWhile is_key_char cs \<noteq> [])"
  shows "replace_params (escape_slashes (c # cs)) =
     (c # fst (replace_params (escape_slashes cs)), snd (replace_params (escape_slashes cs)))"
proof -
  have "escape_slashes (c # cs) = c # escape_slashes cs"
    using assms(1) by (simp add: escape_slashes_Cons)
  then show ?thesis
    using assms(2) by (auto simp: takeWhile_escape_slashes split: prod.splits)
qed

lemma replace_params_keys:
  "snd (replace_params (escape_slashes q)) = group_names (tokens q)"
proof (induction q rule: tokens.induct)
  case 1
  then show ?case by (simp add: escape_slashes_def)
next
  case (2 c cs)
  show ?case
  proof (cases "c = CHR '':'' \<and> takeWhile is_key_char cs \<noteq> []")
    case True
    with 2(1) replace_params_capture[of cs] show ?thesis
      by (simp del: replace_params.simps)
  next
    case False
    note F = this
    then have tk: "tokens (c # cs) = Literal c # tokens cs" by auto
    from 2(2)[OF F] have IH: "snd (replace_params (escape_slashes cs)) = group_names (tokens cs)" .
    show ?thesis
    proof (cases "c = CHR ''/''")
      case True
      with IH replace_params_slash[of cs] show ?thesis
        unfolding tk by (simp del: replace_params.simps tokens.simps)
    next
      case False
      with IH replace_params_other[OF False F] show ?thesis
        unfolding tk by (simp del: replace_params.simps tokens.simps)
    qed
  qed
qed

lemma parse_nodes_char:
  "\<not> is_metachar c \<Longrightarrow> parse_nodes (c # rest) seen = cons_node (Literal c) (parse_nodes rest seen)"
  using not_metachar_facts[of c] by simp

lemma parse_nodes_tokens:
  "list_all (\<lambda>c. \<not> is_metachar c) q \<Longrightarrow>
   list_all (\<lambda>k. \<not> is_digit (hd k)) (group_names (tokens q)) \<Longrightarrow>
   distinct (group_names (tokens q)) \<Longrightarrow> set (group_names (tokens q)) \<inter> set seen = {} \<Longrightarrow>
   parse_nodes (fst (replace_params (escape_slashes q)) @ ''$'') seen = Inr (tokens q)"
proof (induction q arbitrary: seen rule: tokens.induct)
  case 1
  then show ?case by (simp add: escape_slashes_def)
next
  case (2 c cs)
  show ?case
  proof (cases "c = CHR '':'' \<and> takeWhile is_key_char cs \<noteq> []")
    case True
    let ?k = "takeWhile is_key_char cs"
    let ?r = "dropWhile is_key_char cs"
    from True have tk: "tokens (c # cs) = NamedGroup ?k # tokens ?r" by simp
    have "list_all is_key_char ?k"
      by (auto simp: list_all_iff dest: set_takeWhileD)
    with True 2(4) tk have vk: "valid_name ?k" by (simp add: valid_name_def)
    from 2(5,6) tk have fresh: "?k \<notin> set seen" "distinct (group_names (tokens ?r))"
      "set (group_names (tokens ?r)) \<inter> set (?k # seen) = {}"
      by auto
    from 2(3) have "list_all (\<lambda>c. \<not> is_metachar c) ?r"
      by (auto simp: list_all_iff dest: set_dropWhileD)
    with 2(1)[OF True, of "?k # seen"] 2(4) tk fresh
    have IH: "parse_nodes (fst (replace_params (escape_slashes ?r)) @ ''$'') (?k # seen) = Inr (tokens ?r)"
      by simp
    show ?thesis
      using True replace_params_capture[of cs]
        parse_nodes_group[OF vk fresh(1), of "fst (replace_params (escape_slashes ?r)) @ ''$''"] IH
      by (simp add: cons_node_def del: replace_params.simps parse_nodes.simps)
  next
    case False
    note F = this
    then have tk: "tokens (c # cs) = Literal c # tokens cs" by auto
    from 2(3) have c: "\<not> is_metachar c" and cs: "list_all (\<lambda>c. \<not> is_metachar c) cs" by simp_all
    from 2(2)[OF F cs, of seen] 2(4,5,6) tk
    have IH: "parse_nodes (fst (replace_params (escape_slashes cs)) @ ''$'') seen = Inr (tokens cs)"
      by simp
    show ?thesis
    proof (cases "c = CHR ''/''")
      case True
      with IH tk replace_params_slash[of cs]
        parse_nodes_slash[of "fst (replace_params (escape_slashes cs)) @ ''$''" seen]
      show ?thesis
        by (simp add: cons_node_def del: replace_params.simps parse_nodes.simps)
    next
      case False
      with IH tk F replace_params_other[of c cs]
        parse_nodes_char[OF c, of "fst (replace_params (escape_slashes cs)) @ ''$''" seen]
      show ?thesis
        by (simp add: cons_node_def del: replace_params.simps parse_nodes.simps)
    qed
  qed
qed

lemma cleanPath_no_metachar:
  "list_all (\<lambda>c. \<not> is_metachar c) p \<Longrightarrow> list_all (\<lambda>c. \<not> is_metachar c) (cleanPath p)"
proof -
  assume a: "list_all (\<lambda>c. \<not> is_metachar c) p"
  have "set (strip_trailing_slashes p) \<subseteq> set p"
    unfolding strip_trailing_slashes_def using set_dropWhileD by fastforce
  with a have "list_all (\<lambda>c. \<not> is_metachar c) (strip_trailing_slashes p)"
    by (auto simp: list_all_iff)
  moreover have "\<not> is_metachar CHR ''/''"
    by (simp add: is_metachar_def backslash_def)
  ultimately show ?thesis by (simp add: cleanPath_def Let_def)
qed

lemma pathToRegex_tokens:
  assumes "list_all (\<lambda>c. \<not> is_metachar c) p"
    and "list_all (\<lambda>k. \<not> is_digit (hd k)) (group_names (tokens (cleanPath p)))"
    and "distinct (group_names (tokens (cleanPath p)))"
  shows "pathToRegex p = Inr (tokens (cleanPath p), group_names (tokens (cleanPath p)))"
proof -
  from parse_nodes_tokens[OF cleanPath_no_metachar[OF assms(1)] assms(2,3), of "[]"]
  have "parse_nodes (fst (replace_params (escape_slashes (cleanPath p))) @ ''$'') [] =
      Inr (tokens (cleanPath p))"
    by simp
  then show ?thesis
    using replace_params_keys[of "cleanPath p"]
    by (cases "replace_params (escape_slashes (cleanPath p))")
       (simp add: pathToRegex_def RegExp_def del: replace_params.simps parse_nodes.simps)
qed

lemma first_some_Some: "first_some f xs = Some y \<Longrightarrow> \<exists>x\<in>set xs. f x = Some y"
  by (induction xs) (auto split: option.splits)

lemma first_some_None: "first_some f xs = None \<longleftrightarrow> (\<forall>x\<in>set xs. f x = None)"
  by (induction xs) (auto split: option.splits)

lemma take_takeWhile:
  "n \<le> length (takeWhile P s) \<Longrightarrow> take n s = take n (takeWhile P s)"
proof -
  assume n: "n \<le> length (takeWhile P s)"
  have "take n s = take n (takeWhile P s @ dropWhile P s)" by simp
  also have "\<dots> = take n (takeWhile P s)" using n by (simp del: takeWhile_dropWhile_id)
  finally show ?thesis .
qed

lemma match_nodes_sound:
  "match_nodes nds s = Some g \<Longrightarrow>
   map fst g = group_names nds \<and> s = fill nds (map snd g) \<and>
   (\<forall>v\<in>set (map snd g). v \<noteq> [] \<and> CHR ''/'' \<notin> set v)"
proof (induction nds arbitrary: s g)
  case Nil
  then show ?case by (auto split: if_splits)
next
  case (Cons nd nds)
  show ?case
  proof (cases nd)
    case (Literal c)
    with Cons.prems obtain ds where s: "s = c # ds" and m: "match_nodes nds ds = Some g"
      by (auto split: list.splits if_splits)
    from Cons.IH[OF m] s Literal show ?thesis by simp
  next
    case (NamedGroup k)
    let ?P = "\<lambda>c. c \<noteq> CHR ''/''"
    let ?f = "\<lambda>n. map_option (\<lambda>g. (k, take n s) # g) (match_nodes nds (drop n s))"
    from Cons.prems NamedGroup
    have "first_some ?f (rev [1..<Suc (length (takeWhile ?P s))]) = Some g"
      by simp
    from first_some_Some[OF this] obtain n where n: "1 \<le> n" "n \<le> length (takeWhile ?P s)"
      and fn: "?f n = Some g"
      by auto
    from fn obtain g' where m: "match_nodes nds (drop n s) = Some g'" and g: "g = (k, take n s) # g'"
      by auto
    have tk: "take n s = take n (takeWhile ?P s)"
      using n(2) by (rule take_takeWhile)
    have ne: "take n s \<noteq> []"
      using n length_takeWhile_le[of ?P s] by (cases s) auto
    have "set (take n s) \<subseteq> set (takeWhile ?P s)"
      unfolding tk by (rule set_take_subset)
    then have ns: "CHR ''/'' \<notin> set (take n s)"
      by (auto dest: set_takeWhileD)
    have "s = take n s @ drop n s" by simp
    with Cons.IH[OF m] have "s = take n s @ fill nds (map snd g')" by simp
    with Cons.IH[OF m] g ne ns NamedGroup show ?thesis by simp
  qed
qed

lemma match_nodes_complete:
  "length vs = length (group_names nds) \<Longrightarrow> \<forall>v\<in>set vs. v \<noteq> [] \<and> CHR ''/'' \<notin> set v \<Longrightarrow>
   match_nodes nds (fill nds vs) \<noteq> None"
proof (induction nds vs rule: fill.induct)
  case (1 vs)
  then show ?case by simp
next
  case (2 c nds vs)
  then show ?case by simp
next
  case (3 k nds)
  then show ?case by simp
next
  case (4 k nds v vs)
  let ?P = "\<lambda>c. c \<noteq> CHR ''/''"
  let ?s = "v @ fill nds vs"
  let ?f = "\<lambda>n. map_option (\<lambda>g. (k, take n ?s) # g) (match_nodes nds (drop n ?s))"
  from 4 have IH: "match_nodes nds (fill nds vs) \<noteq> None" by simp
  from 4(3) have v: "v \<noteq> []" "\<forall>x\<in>set v. ?P x" by auto
  then have "takeWhile ?P ?s = v @ takeWhile ?P (fill nds vs)"
    by (simp add: takeWhile_append2)
  then have "length (takeWhile ?P ?s) = length v + length (takeWhile ?P (fill nds vs))"
    by simp
  moreover from v(1) have "1 \<le> length v"
    by (cases v) simp_all
  ultimately have "1 \<le> length v \<and> length v < Suc (length (takeWhile ?P ?s))"
    by linarith
  then have mem: "length v \<in> set (rev [1..<Suc (length (takeWhile ?P ?s))])"
    by (simp del: upt_Suc)
  have nn: "?f (length v) \<noteq> None"
    using IH by simp
  have "first_some ?f (rev [1..<Suc (length (takeWhile ?P ?s))]) \<noteq> None"
  proof
    assume "first_some ?f (rev [1..<Suc (length (takeWhile ?P ?s))]) = None"
    then have "\<forall>x\<in>set (rev [1..<Suc (length (takeWhile ?P ?s))]). ?f x = None"
      by (simp only: first_some_None)
    from bspec[OF this mem] nn show False by simp
  qed
  then show ?case by simp
qed

lemma parse_nodes_group_refused:
  assumes "list_all is_key_char k" and "k \<noteq> []" and "is_digit (hd k) \<or> k \<in> set seen"
  shows "parse_nodes (group_src k @ rest) seen = Inl SyntaxError"
proof -
  have g: "group_src k @ rest = CHR ''('' # (''?<'' @ k @ ''>[^'' @ [backslash] @ ''/]+)'' @ rest)"
    by (simp add: group_src_def)
  have tg: "take_group (''?<'' @ k @ ''>[^'' @ [backslash] @ ''/]+)'' @ rest) = Some (k, rest)"
    using assms(1) by (rule take_group_src)
  have "CHR ''('' \<noteq> backslash" by (simp add: backslash_def)
  then show ?thesis
    unfolding g using assms tg
    by (subst parse_nodes.simps) (simp del: parse_nodes.simps)
qed

lemma parse_nodes_tokens_refused:
  "list_all (\<lambda>c. \<not> is_metachar c) q \<Longrightarrow>
   \<not> (list_all (\<lambda>k. \<not> is_digit (hd k)) (group_names (tokens q)) \<and>
      distinct (group_names (tokens q)) \<and> set (group_names (tokens q)) \<inter> set seen = {}) \<Longrightarrow>
   parse_nodes (fst (replace_params (escape_slashes q)) @ ''$'') seen = Inl SyntaxError"
proof (induction q arbitrary: seen rule: tokens.induct)
  case 1
  then show ?case by simp
next
  case (2 c cs)
  show ?case
  proof (cases "c = CHR '':'' \<and> takeWhile is_key_char cs \<noteq> []")
    case True
    let ?k = "takeWhile is_key_char cs"
    let ?r = "dropWhile is_key_char cs"
    let ?rest = "fst (replace_params (escape_slashes ?r)) @ ''$''"
    from True have tk: "tokens (c # cs) = NamedGroup ?k # tokens ?r" by simp
    have key: "list_all is_key_char ?k"
      by (auto simp: list_all_iff dest: set_takeWhileD)
    have src: "fst (replace_params (escape_slashes (c # cs))) @ ''$'' = group_src ?k @ ?rest"
      using True replace_params_capture[of cs] by (simp del: replace_params.simps)
    show ?thesis
    proof (cases "is_digit (hd ?k) \<or> ?k \<in> set seen")
      case bad: True
      from True have "?k \<noteq> []" by simp
      from parse_nodes_group_refused[OF key this bad] show ?thesis
        unfolding src .
    next
      case ok: False
      with key True have vk: "valid_name ?k" by (simp add: valid_name_def)
      from ok have fresh: "?k \<notin> set seen" by simp
      from 2(3) have m: "list_all (\<lambda>c. \<not> is_metachar c) ?r"
        by (auto simp: list_all_iff dest: set_dropWhileD)
      from 2(4) ok tk
      have "\<not> (list_all (\<lambda>k. \<not> is_digit (hd k)) (group_names (tokens ?r)) \<and>
          distinct (group_names (tokens ?r)) \<and> set (group_names (tokens ?r)) \<inter> set (?k # seen) = {})"
        by auto
      from 2(1)[OF True m this]
      have "parse_nodes ?rest (?k # seen) = Inl SyntaxError" .
      with parse_nodes_group[OF vk fresh, of ?rest] show ?thesis
        unfolding src by (simp add: cons_node_def)
    qed
  next
    case False
    note F = this
    then have tk: "tokens (c # cs) = Literal c # tokens cs" by auto
    from 2(3) have c: "\<not> is_metachar c" and cs: "list_all (\<lambda>c. \<not> is_metachar c) cs" by simp_all
    from 2(4) tk
    have "\<not> (list_all (\<lambda>k. \<not> is_digit (hd k)) (group_names (tokens cs)) \<and>
          distinct (group_names (tokens cs)) \<and> set (group_names (tokens cs)) \<inter> set seen = {})"
      by simp
    from 2(2)[OF F cs this]
    have IH: "parse_nodes (fst (replace_params (escape_slashes cs)) @ ''$'') seen = Inl SyntaxError" .
    show ?thesis
    proof (cases "c = CHR ''/''")
      case True
      with IH replace_params_slash[of cs]
        parse_nodes_slash[of "fst (replace_params (escape_slashes cs)) @ ''$''" seen]
      show ?thesis
        by (simp add: cons_node_def del: replace_params.simps parse_nodes.simps)
    next
      case False
      with IH F replace_params_other[of c cs]
        parse_nodes_char[OF c, of "fst (replace_params (escape_slashes cs)) @ ''$''" seen]
      show ?thesis
        by (simp add: cons_node_def del: replace_params.simps parse_nodes.simps)
    qed
  qed
qed

lemma pathToRegex_refused:
  assumes "list_all (\<lambda>c. \<not> is_metachar c) p"
    and "\<not> (list_all (\<lambda>k. \<not> is_digit (hd k)) (group_names (tokens (cleanPath p))) \<and>
          distinct (group_names (tokens (cleanPath p))))"
  shows "pathToRegex p = Inl SyntaxError"
proof -
  from parse_nodes_tokens_refused[OF cleanPath_no_metachar[OF assms(1)], of "[]"] assms(2)
  have "parse_nodes (fst (replace_params (escape_slashes (cleanPath p))) @ ''$'') [] = Inl SyntaxError"
    by simp
  then show ?thesis
    by (cases "replace_params (escape_slashes (cleanPath p))")
       (simp add: pathToRegex_def RegExp_def del: replace_params.simps parse_nodes.simps)
qed

subsection \<open>The engine\<close>

declare next_handler.simps(2) [simp del]
declare runMiddlewares.simps(2) [simp del]

lemma perform_fields:
  assumes "perform c s = Inr u"
  shows "h_j u = h_j s" "mw_i u = mw_i s" "body u = body s" "stream u = stream s"
    "params u = params s" "req_method u = req_method s" "req_url u = req_url s"
    "req_host u = req_host s"
  using assms
  by (cases c; auto simp: res_status_def res_json_def res_end_def emit_def setHeader_def
      split: if_splits)+

lemma trace_perform:
  assumes "perform c s = Inr u"
  shows "trace u = trace s \<or> (\<exists>code d. trace u = trace s @ [Ended code d]) \<or>
    (\<exists>w. trace u = trace s @ [SideEffect w])"
  using assms
  by (cases c; auto simp: res_status_def res_json_def res_end_def emit_def setHeader_def
      split: if_splits)

lemma perform_Status: "perform (Status code) s = Inr (res_status code s)"
  by simp

lemma status_json_eq:
  "status_json code data s =
     (if res_state s = Open then
        Normal (res_end (JSON_stringify data)
          (s\<lparr>statusCode := code,
             headers := put_header ''Content-Type'' ''application/json'' (headers s)\<rparr>))
      else Raised (ERR_HTTP_HEADERS_SENT ''set'') (s\<lparr>statusCode := code\<rparr>))"
  by (simp add: status_json_def res_json_def setHeader_def res_status_def)

lemma status_json_holds:
  assumes "stable P" and "P s"
  shows "holds P (status_json code data s)"
proof -
  from assms have a: "P (res_status code s)"
    unfolding stable_def using perform_Status by blast
  have "P u" if "res_json data (res_status code s) = Inr u" for u
    using assms(1) a that perform.simps(2) unfolding stable_def by metis
  with a show ?thesis
    by (auto simp: status_json_def split: sum.splits)
qed

lemma status_json_finishes: "status_json code data s \<noteq> OutOfFuel"
  by (simp add: status_json_def split: sum.splits)

lemma status_json_Raised:
  "status_json code data s = Raised msg t \<Longrightarrow> res_state t \<noteq> Open"
  by (auto simp: status_json_eq split: if_splits)

lemma stringify_not_found: \<open>JSON_stringify not_found = ''{"error":"Route not found"}''\<close>
  by (simp add: not_found_def quote_def escape_char_def backslash_def)

lemma stringify_internal_error:
  \<open>JSON_stringify internal_error = ''{"error":"Internal Server Error"}''\<close>
  by (simp add: internal_error_def quote_def escape_char_def backslash_def)

lemma route_loop_no_match:
  "\<forall>r \<in> set rs. str_match pathname (regex r) = None \<or> route_method r \<noteq> method \<Longrightarrow>
   route_loop rs method pathname s = status_json 404 not_found (emit NotFound s)"
  by (induction rs) (auto split: option.splits)

lemma route_loop_first_match:
  "i < length rs \<Longrightarrow> str_match pathname (regex (rs ! i)) = Some g \<Longrightarrow>
   route_method (rs ! i) = method \<Longrightarrow>
   \<forall>k<i. str_match pathname (regex (rs ! k)) = None \<or> route_method (rs ! k) \<noteq> method \<Longrightarrow>
   route_loop rs method pathname s =
     next_handler (Suc (length (handlers (rs ! i)))) (handlers (rs ! i)) (s\<lparr>params := g, h_j := 0\<rparr>)"
proof (induction rs arbitrary: i)
  case Nil
  then show ?case by simp
next
  case (Cons r rs)
  show ?case
  proof (cases i)
    case 0
    with Cons.prems show ?thesis by simp
  next
    case (Suc i')
    from Cons.prems(4) Suc have r: "str_match pathname (regex r) = None \<or> route_method r \<noteq> method"
      by auto
    have "\<forall>k<i'. str_match pathname (regex (rs ! k)) = None \<or> route_method (rs ! k) \<noteq> method"
      using Cons.prems(4) Suc by auto
    with Cons.IH[of i'] Cons.prems Suc
    have "route_loop rs method pathname s =
      next_handler (Suc (length (handlers (rs ! i')))) (handlers (rs ! i')) (s\<lparr>params := g, h_j := 0\<rparr>)"
      by simp
    with r Suc show ?thesis by (auto split: option.splits)
  qed
qed

lemma holds_mono: "holds P r \<Longrightarrow> (\<And>t. P t \<Longrightarrow> Q t) \<Longrightarrow> holds Q r"
  by (cases r) auto

lemma holds_outcome: "holds P r \<Longrightarrow> outcome r = Some t \<Longrightarrow> P t"
  by (cases r) auto

lemma outcome_finishes: "r \<noteq> OutOfFuel \<Longrightarrow> \<exists>t. outcome r = Some t"
  by (cases r) auto

lemma run_body_holds:
  assumes "P s" and "\<And>c t u. P t \<Longrightarrow> perform c t = Inr u \<Longrightarrow> P u"
    and "\<And>t. P t \<Longrightarrow> holds P (nxt t)"
  shows "holds P (run_body sc nxt s)"
  using assms(1)
proof (induction sc arbitrary: s)
  case Nil
  then show ?case by simp
next
  case (Cons a sc)
  show ?case
  proof (cases a)
    case (Do c)
    with Cons assms(2) show ?thesis by (auto split: sum.splits)
  next
    case Next
    from assms(3)[OF Cons.prems] Cons.IH Next show ?thesis
      by (cases "nxt s") auto
  next
    case (Throw msg)
    with Cons.prems show ?thesis by simp
  qed
qed

lemma run_body_finishes:
  assumes "P s" and "\<And>c t u. P t \<Longrightarrow> perform c t = Inr u \<Longrightarrow> P u"
    and "\<And>t. P t \<Longrightarrow> nxt t \<noteq> OutOfFuel \<and> holds P (nxt t)"
  shows "run_body sc nxt s \<noteq> OutOfFuel"
  using assms(1)
proof (induction sc arbitrary: s)
  case Nil
  then show ?case by simp
next
  case (Cons a sc)
  show ?case
  proof (cases a)
    case (Do c)
    with Cons assms(2) show ?thesis by (auto split: sum.splits)
  next
    case Next
    from assms(3)[OF Cons.prems] Cons.IH Next show ?thesis
      by (cases "nxt s") auto
  next
    case (Throw msg)
    then show ?thesis by simp
  qed
qed

lemma next_handler_holds:
  assumes "stable P" and "P s"
  shows "holds P (next_handler n hs s)"
  using assms(2)
proof (induction n arbitrary: s)
  case 0
  then show ?case by simp
next
  case (Suc n)
  let ?s2 = "emit (HandlerRun (h_j s)) (s\<lparr>h_j := h_j s + 1\<rparr>)"
  from Suc.prems assms(1) have s2: "P ?s2" and s1: "P (s\<lparr>h_j := h_j s + 1\<rparr>)"
    by (auto simp: stable_def)
  have "holds P (run_body ((hs ! h_j s) ?s2) (next_handler n hs) ?s2)"
    by (rule run_body_holds[where P = P, OF s2]) (use assms(1) Suc.IH in \<open>auto simp: stable_def\<close>)
  moreover have "P t \<Longrightarrow> holds P (status_json 500 internal_error (emit (Caught j) t))" for t j
    using assms(1) by (intro status_json_holds) (auto simp: stable_def)
  ultimately show ?case using s1
    by (auto simp: next_handler.simps Let_def split: result.splits)
qed

lemma next_handler_Raised:
  "next_handler n hs s = Raised msg t \<Longrightarrow> res_state t \<noteq> Open"
  by (cases n) (auto simp: next_handler.simps Let_def split: result.splits if_splits
      dest: status_json_Raised)

lemma next_handler_finishes:
  "length hs < h_j s + n \<Longrightarrow> 0 < n \<Longrightarrow>
   next_handler n hs s \<noteq> OutOfFuel \<and> holds (\<lambda>t. h_j s < h_j t) (next_handler n hs s)"
proof (induction n arbitrary: s)
  case 0
  then show ?case by simp
next
  case (Suc n)
  let ?j = "h_j s"
  let ?s2 = "emit (HandlerRun ?j) (s\<lparr>h_j := ?j + 1\<rparr>)"
  let ?P = "\<lambda>t. ?j < h_j t"
  show ?case
  proof (cases "?j < length hs")
    case False
    then show ?thesis by (simp add: next_handler.simps Let_def)
  next
    case True
    have s2: "?P ?s2" by (simp add: emit_def)
    have step: "next_handler n hs t \<noteq> OutOfFuel \<and> holds ?P (next_handler n hs t)" if "?P t" for t
    proof -
      from that Suc.prems True have "length hs < h_j t + n" "0 < n" by simp_all
      from Suc.IH[OF this] that show ?thesis
        by (auto elim!: holds_mono)
    qed
    have a: "run_body ((hs ! ?j) ?s2) (next_handler n hs) ?s2 \<noteq> OutOfFuel"
      by (rule run_body_finishes[where P = ?P, OF s2]) (use step in \<open>auto simp: perform_fields\<close>)
    have b: "holds ?P (run_body ((hs ! ?j) ?s2) (next_handler n hs) ?s2)"
      by (rule run_body_holds[where P = ?P, OF s2]) (use step in \<open>auto simp: perform_fields\<close>)
    have c: "?P t \<Longrightarrow> holds ?P (status_json 500 internal_error (emit (Caught j) t))" for t j
      by (simp add: status_json_eq res_end_def emit_def)
    from a b c True show ?thesis
      by (auto simp: next_handler.simps Let_def status_json_finishes split: result.splits)
  qed
qed

lemma route_loop_finishes: "route_loop rs method pathname s \<noteq> OutOfFuel"
proof (induction rs)
  case Nil
  then show ?case by (simp add: status_json_finishes)
next
  case (Cons r rs)
  have "next_handler (Suc (length (handlers r))) (handlers r) (s\<lparr>params := g, h_j := 0\<rparr>) \<noteq> OutOfFuel" for g
    using next_handler_finishes[of "handlers r" "s\<lparr>params := g, h_j := 0\<rparr>" "Suc (length (handlers r))"]
    by simp
  with Cons show ?case
    by (auto split: option.splits)
qed

lemma route_loop_Raised:
  "route_loop rs method pathname s = Raised msg t \<Longrightarrow> res_state t \<noteq> Open"
  by (induction rs) (auto split: option.splits if_splits dest: status_json_Raised next_handler_Raised)

lemma route_loop_holds:
  assumes "stable P" and "P s"
  shows "holds P (route_loop rs method pathname s)"
proof (induction rs)
  case Nil
  have "P (emit NotFound s)"
    using assms by (auto simp: stable_def)
  with assms(1) show ?case by (simp add: status_json_holds)
next
  case (Cons r rs)
  have "P (s\<lparr>params := g, h_j := 0\<rparr>)" for g
    using assms unfolding stable_def by blast
  from next_handler_holds[OF assms(1) this] Cons show ?case
    by (auto split: option.splits)
qed

lemma routeHandler_holds:
  assumes "stable P" and "P s"
  shows "holds P (routeHandler rs method pathname s)"
  unfolding routeHandler_def
  by (rule route_loop_holds[OF assms(1)]) (use assms in \<open>auto simp: stable_def\<close>)

lemma routeHandler_finishes: "routeHandler rs method pathname s \<noteq> OutOfFuel"
  unfolding routeHandler_def by (rule route_loop_finishes)

lemma routeHandler_Raised:
  "routeHandler rs method pathname s = Raised msg t \<Longrightarrow> res_state t \<noteq> Open"
  unfolding routeHandler_def by (rule route_loop_Raised)

lemma stable_mw_i: "stable (\<lambda>t. mw_i t = c)"
  by (simp add: stable_def perform_fields emit_def)

lemma runMiddlewares_finishes:
  "length (middlewares a) < mw_i s + n \<Longrightarrow> 0 < n \<Longrightarrow>
   runMiddlewares n a method pathname s \<noteq> OutOfFuel \<and>
   holds (\<lambda>t. mw_i s < mw_i t) (runMiddlewares n a method pathname s)"
proof (induction n arbitrary: s)
  case 0
  then show ?case by simp
next
  case (Suc n)
  let ?i = "mw_i s"
  let ?s1 = "s\<lparr>mw_i := ?i + 1\<rparr>"
  let ?s2 = "emit (MiddlewareRun ?i) ?s1"
  let ?P = "\<lambda>t. ?i < mw_i t"
  show ?case
  proof (cases "?i < length (middlewares a)")
    case False
    have "holds (\<lambda>t. mw_i t = ?i + 1) (routeHandler (routes a) method pathname ?s1)"
      by (rule routeHandler_holds[OF stable_mw_i]) simp
    then have "holds ?P (routeHandler (routes a) method pathname ?s1)"
      by (rule holds_mono) simp
    with False routeHandler_finishes show ?thesis
      by (simp add: runMiddlewares.simps Let_def)
  next
    case True
    have s2: "?P ?s2" by (simp add: emit_def)
    have step: "runMiddlewares n a method pathname t \<noteq> OutOfFuel \<and>
        holds ?P (runMiddlewares n a method pathname t)" if "?P t" for t
    proof -
      from that Suc.prems True have "length (middlewares a) < mw_i t + n" "0 < n" by simp_all
      from Suc.IH[OF this] that show ?thesis
        by (auto elim!: holds_mono)
    qed
    have a: "run_body ((middlewares a ! ?i) ?s2) (runMiddlewares n a method pathname) ?s2 \<noteq> OutOfFuel"
      by (rule run_body_finishes[where P = ?P, OF s2]) (use step in \<open>auto simp: perform_fields\<close>)
    have b: "holds ?P (run_body ((middlewares a ! ?i) ?s2) (runMiddlewares n a method pathname) ?s2)"
      by (rule run_body_holds[where P = ?P, OF s2]) (use step in \<open>auto simp: perform_fields\<close>)
    from a b True show ?thesis
      by (simp add: runMiddlewares.simps Let_def)
  qed
qed

lemma runMiddlewares_holds:
  assumes "stable P" and "\<And>t i. P t \<Longrightarrow> P (t\<lparr>mw_i := i\<rparr>)" and "P s"
  shows "holds P (runMiddlewares n a method pathname s)"
  using assms(3)
proof (induction n arbitrary: s)
  case 0
  then show ?case by simp
next
  case (Suc n)
  let ?s1 = "s\<lparr>mw_i := mw_i s + 1\<rparr>"
  let ?s2 = "emit (MiddlewareRun (mw_i s)) ?s1"
  from Suc.prems assms(1,2) have s1: "P ?s1" by blast
  then have s2: "P ?s2" using assms(1) by (auto simp: stable_def)
  have "holds P (run_body ((middlewares a ! mw_i s) ?s2) (runMiddlewares n a method pathname) ?s2)"
    by (rule run_body_holds[where P = P, OF s2]) (use assms(1) Suc.IH in \<open>auto simp: stable_def\<close>)
  with routeHandler_holds[OF assms(1) s1] show ?case
    by (simp add: runMiddlewares.simps Let_def)
qed

lemma stringify_server_error:
  \<open>JSON_stringify (JObj [(''error'', JStr ''Server error''), (''message'', JStr msg)]) =
     ''{"error":"Server error","message":'' @ quote msg @ ''}''\<close>
  by (simp add: quote_def escape_char_def backslash_def)

lemma server_error_eq:
  \<open>server_error msg s =
     (if res_state s = Open then
        Normal (s\<lparr>statusCode := 500,
          headers := put_header ''Content-Type'' ''application/json'' (headers s),
          res_state := Finished,
          trace := trace s @ [Ended 500 (''{"error":"Server error","message":'' @ quote msg @ ''}'')]\<rparr>)
      else Raised (ERR_HTTP_HEADERS_SENT ''write'') s)\<close>
  by (simp add: server_error_def writeHead_def res_end_def emit_def stringify_server_error
      del: JSON_stringify.simps)

lemma server_error_finishes: "server_error msg s \<noteq> OutOfFuel"
  by (simp add: server_error_eq)

lemma handleRequest_dispatch:
  assumes "U (rq_url rq) (rq_host rq) = Inr p"
  shows "handleRequest U J a rq =
     (case runMiddlewares (Suc (length (middlewares a))) a (rq_method rq) (cleanPath p)
             (parseBody J (arrive rq)) of
        Raised msg t \<Rightarrow> server_error msg t
      | r \<Rightarrow> r)"
proof -
  have "(parseBody J ((arrive rq)\<lparr>params := []\<rparr>))\<lparr>mw_i := 0\<rparr> = parseBody J (arrive rq)"
    by (simp add: parseBody_def arrive_def split: option.splits)
  with assms show ?thesis
    by (simp add: handleRequest_def Let_def)
qed

lemma handleRequest_returns: "handleRequest U J a rq \<noteq> OutOfFuel"
proof (cases "U (rq_url rq) (rq_host rq)")
  case (Inl msg)
  then show ?thesis by (simp add: handleRequest_def server_error_finishes)
next
  case (Inr p)
  have "runMiddlewares (Suc (length (middlewares a))) a (rq_method rq) (cleanPath p)
      (parseBody J (arrive rq)) \<noteq> OutOfFuel"
    using runMiddlewares_finishes[of a "parseBody J (arrive rq)" "Suc (length (middlewares a))"]
    by simp
  then show ?thesis
    unfolding handleRequest_dispatch[where U = U and rq = rq, OF Inr]
    by (auto split: result.splits simp: server_error_finishes)
qed

lemma handleRequest_Raised:
  "handleRequest U J a rq = Raised msg t \<Longrightarrow> res_state t \<noteq> Open"
  by (auto simp: handleRequest_def Let_def server_error_eq split: sum.splits result.splits if_splits)

lemma no_OutOfFuel:
  "routeHandler rs method pathname s \<noteq> OutOfFuel" "handleRequest U J a rq \<noteq> OutOfFuel"
  by (rule routeHandler_finishes, rule handleRequest_returns)

lemma parseBody_fields:
  "trace (parseBody J s) = trace s" "mw_i (parseBody J s) = mw_i s"
  "statusCode (parseBody J s) = statusCode s" "headers (parseBody J s) = headers s"
  "req_method (parseBody J s) = req_method s" "res_state (parseBody J s) = res_state s"
  "req_url (parseBody J s) = req_url s" "req_host (parseBody J s) = req_host s"
  by (simp_all add: parseBody_def split: option.splits)

lemma parseBody_body:
  "body (parseBody J s) =
     (if req_method s = ''POST'' \<or> req_method s = ''PUT'' \<or> req_method s = ''PATCH''
      then (case J (concat (stream s)) of Some v \<Rightarrow> v | None \<Rightarrow> JObj [])
      else JObj [])"
  "stream (parseBody J s) =
     (if req_method s = ''POST'' \<or> req_method s = ''PUT'' \<or> req_method s = ''PATCH''
      then [] else stream s)"
  by (auto simp: parseBody_def split: option.splits)

lemma register_appends:
  "register method path hs a = Inr b \<Longrightarrow>
   \<exists>re. routes b = routes a @ [\<lparr>route_method = method, regex = re, handlers = hs\<rparr>] \<and>
        middlewares b = middlewares a"
  by (auto simp: register_def split: sum.splits prod.splits)

subsection \<open>Applications of the examples, and chains that stop\<close>

lemma users_app_routes:
  "routes users_app =
     [\<lparr>route_method = ''GET'', regex = users_id, handlers = [show_user]\<rparr>,
      \<lparr>route_method = ''GET'', regex = users_me, handlers = [show_me]\<rparr>]"
proof -
  have "pathToRegex ''/users/:id'' = Inr (users_id, [''id''])"
    by code_simp
  moreover have "pathToRegex ''/users/me'' = Inr (users_me, [])"
    by code_simp
  ultimately show ?thesis
    by (simp add: users_app_def get_def register_def replicax_def)
qed

lemma users_app_middlewares: "middlewares users_app = []"
  using users_app_routes
  by (auto simp: users_app_def get_def register_def replicax_def split: sum.splits prod.splits)

lemma guarded_app_middlewares: "middlewares guarded_app = [logger, deny]"
  by (simp add: guarded_app_def use_def users_app_middlewares)

lemma broken_app_middlewares: "middlewares broken_app = [logger, broken]"
  by (simp add: broken_app_def use_def users_app_middlewares)

lemma logged_app_fields:
  "middlewares logged_app = [logger]" "routes logged_app = routes users_app"
  by (simp_all add: logged_app_def use_def users_app_middlewares)

lemma one_route_chain:
  "routes (one_route ''/chain'' hs) =
     [\<lparr>route_method = ''GET'', regex = chain, handlers = hs\<rparr>]"
  "middlewares (one_route ''/chain'' hs) = []"
proof -
  have "pathToRegex ''/chain'' = Inr (chain, [])"
    by code_simp
  then show "routes (one_route ''/chain'' hs) =
     [\<lparr>route_method = ''GET'', regex = chain, handlers = hs\<rparr>]"
    "middlewares (one_route ''/chain'' hs) = []"
    by (simp_all add: one_route_def get_def register_def replicax_def)
qed

lemma match_chain: "str_match ''/chain'' chain = Some []"
  by code_simp

lemmas run_simps = routeHandler_def next_handler.simps Let_def arrive_def request_for_def emit_def
  always_def status_json_def res_json_def res_status_def res_end_def setHeader_def put_header_def
  one_route_chain match_chain

lemma run_body_no_next:
  assumes "next_calls sc = 0" and "P s" and "\<And>c t u. P t \<Longrightarrow> perform c t = Inr u \<Longrightarrow> P u"
  shows "run_body sc nxt s \<noteq> OutOfFuel \<and> holds P (run_body sc nxt s)"
  using assms(1,2)
proof (induction sc arbitrary: s)
  case Nil
  then show ?case by simp
next
  case (Cons a sc)
  then show ?case using assms(3) by (cases a) (auto split: sum.splits)
qed

lemma run_body_once:
  assumes "next_calls sc \<le> 1" and "A s" and "\<And>c t u. A t \<Longrightarrow> perform c t = Inr u \<Longrightarrow> A u"
    and "\<And>t. A t \<Longrightarrow> holds B (nxt t)" and "\<And>c t u. B t \<Longrightarrow> perform c t = Inr u \<Longrightarrow> B u"
    and "\<And>t. A t \<Longrightarrow> B t"
  shows "holds B (run_body sc nxt s)"
  using assms(1,2)
proof (induction sc arbitrary: s)
  case Nil
  then show ?case using assms(6) by simp
next
  case (Cons a sc)
  show ?case
  proof (cases a)
    case (Do c)
    with Cons assms(3,6) show ?thesis by (auto split: sum.splits)
  next
    case Next
    with Cons.prems have z: "next_calls sc = 0" by simp
    from assms(4)[OF Cons.prems(2)] Next show ?thesis
      using run_body_no_next[OF z, where P = B and nxt = nxt] assms(5)
      by (cases "nxt s") auto
  next
    case (Throw msg)
    with Cons.prems assms(6) show ?thesis by simp
  qed
qed

lemma quiet_perform:
  "quiet k (trace t) \<Longrightarrow> perform c t = Inr u \<Longrightarrow> quiet k (trace u)"
  using trace_perform[of c t u] unfolding quiet_def by auto

lemma responses_append: "responses (xs @ ys) = responses xs @ responses ys"
  by (induction xs rule: responses.induct) simp_all

lemma responses_engine_event: "engine_event e \<Longrightarrow> responses [e] = []"
  by (cases e) simp_all

lemma one_response_perform:
  "one_response t \<Longrightarrow> perform c t = Inr u \<Longrightarrow> one_response u"
  by (cases c)
     (auto simp: one_response_def res_status_def res_json_def res_end_def emit_def setHeader_def
       responses_append split: if_splits)

lemma stable_one_response: "stable one_response"
  unfolding stable_def
proof (intro allI impI conjI)
  fix t c u assume "one_response t" "perform c t = Inr u"
  then show "one_response u" by (rule one_response_perform)
next
  fix t e assume "one_response t" "engine_event e"
  then show "one_response (emit e t)"
    by (simp add: one_response_def emit_def responses_append responses_engine_event)
qed (simp_all add: one_response_def)

lemma server_error_one_response:
  "one_response t \<Longrightarrow> holds one_response (server_error msg t)"
  by (auto simp: server_error_eq one_response_def responses_append)

lemma handleRequest_one_response: "holds one_response (handleRequest U J a rq)"
proof (cases "U (rq_url rq) (rq_host rq)")
  case (Inl msg)
  have "one_response (arrive rq)" by (simp add: one_response_def arrive_def)
  with Inl show ?thesis
    by (simp add: handleRequest_def server_error_one_response)
next
  case (Inr p)
  have "holds one_response (runMiddlewares (Suc (length (middlewares a))) a (rq_method rq) (cleanPath p)
      (parseBody J (arrive rq)))"
    by (rule runMiddlewares_holds[OF stable_one_response])
       (simp_all add: one_response_def parseBody_fields arrive_def)
  then show ?thesis
    unfolding handleRequest_dispatch[where U = U and rq = rq, OF Inr]
    by (auto split: result.splits simp: server_error_one_response)
qed

lemma runMiddlewares_quiet:
  assumes k: "k < length (middlewares a)"
    and veto: "\<forall>c. next_calls ((middlewares a ! k) c) = 0"
    and once: "\<forall>i<k. \<forall>c. next_calls ((middlewares a ! i) c) \<le> 1"
  shows "mw_i s \<le> k \<Longrightarrow> quiet k (trace s) \<Longrightarrow>
     holds (\<lambda>t. quiet k (trace t)) (runMiddlewares n a method pathname s)"
proof (induction n arbitrary: s)
  case 0
  then show ?case by simp
next
  case (Suc n)
  let ?i = "mw_i s"
  let ?s2 = "emit (MiddlewareRun ?i) (s\<lparr>mw_i := ?i + 1\<rparr>)"
  let ?B = "\<lambda>t. quiet k (trace t)"
  from Suc.prems k have i: "?i < length (middlewares a)" by simp
  have q2: "quiet k (trace ?s2)"
    using Suc.prems by (auto simp: quiet_def emit_def)
  have "holds ?B (run_body ((middlewares a ! ?i) ?s2) (runMiddlewares n a method pathname) ?s2)"
  proof (cases "?i = k")
    case True
    with veto have "next_calls ((middlewares a ! ?i) ?s2) = 0" by simp
    from run_body_no_next[OF this, where P = ?B, OF q2] show ?thesis
      by (auto intro: quiet_perform)
  next
    case False
    with Suc.prems have lt: "?i < k" by simp
    with once have o: "next_calls ((middlewares a ! ?i) ?s2) \<le> 1" by simp
    let ?A = "\<lambda>t. mw_i t = ?i + 1 \<and> quiet k (trace t)"
    show ?thesis
    proof (rule run_body_once[OF o, where A = ?A])
      show "?A ?s2" using q2 by (simp add: emit_def)
      show "?A u" if "?A t" "perform c t = Inr u" for c t u
        using that by (auto simp: perform_fields intro: quiet_perform)
      show "holds ?B (runMiddlewares n a method pathname t)" if "?A t" for t
        using that lt by (intro Suc.IH) auto
      show "?B u" if "?B t" "perform c t = Inr u" for c t u
        using that by (auto intro: quiet_perform)
      show "?B t" if "?A t" for t using that by simp
    qed
  qed
  with i show ?case
    by (simp add: runMiddlewares.simps Let_def)
qed

lemma added_fields:
  "added base Q (t\<lparr>h_j := j\<rparr>) = added base Q t"
  "added base Q (t\<lparr>statusCode := code\<rparr>) = added base Q t"
  by (simp_all add: added_def)

lemma added_emit:
  "added base Q t \<Longrightarrow> (\<And>evs. Q evs \<Longrightarrow> Q (evs @ [e])) \<Longrightarrow> added base Q (emit e t)"
  by (auto simp: added_def emit_def)

lemma added_perform:
  assumes "added base Q t" and "perform c t = Inr u"
    and "\<And>evs code d. Q evs \<Longrightarrow> Q (evs @ [Ended code d])"
    and "\<And>evs w. Q evs \<Longrightarrow> Q (evs @ [SideEffect w])"
  shows "added base Q u"
  using assms(1,3,4) trace_perform[OF assms(2)] unfolding added_def by auto

lemma added_status_json:
  assumes "added base Q t" and "\<And>evs code d. Q evs \<Longrightarrow> Q (evs @ [Ended code d])"
  shows "holds (added base Q) (status_json code data t)"
  using assms by (auto simp: status_json_eq res_end_def emit_def added_def)

lemma added_caught:
  assumes "added base Q t"
    and "\<And>evs code d. Q evs \<Longrightarrow> Q (evs @ [Ended code d])"
    and "\<And>evs. Q evs \<Longrightarrow> Q (evs @ [Caught j])"
  shows "holds (added base Q) (status_json 500 internal_error (emit (Caught j) t))"
  by (rule added_status_json[OF added_emit[OF assms(1,3)] assms(2)])

lemma next_handler_stops:
  assumes veto: "\<forall>c. next_calls ((hs ! k) c) = 0"
    and once: "\<forall>m<k. \<forall>c. next_calls ((hs ! m) c) \<le> 1"
  shows "h_j u \<le> k \<Longrightarrow> added base (no_later_handler k) u \<Longrightarrow>
     holds (added base (no_later_handler k)) (next_handler n hs u)"
proof (induction n arbitrary: u)
  case 0
  then show ?case by simp
next
  case (Suc n)
  let ?j = "h_j u"
  let ?s1 = "u\<lparr>h_j := ?j + 1\<rparr>"
  let ?s2 = "emit (HandlerRun ?j) ?s1"
  let ?B = "added base (no_later_handler k)"
  have app: "no_later_handler k (evs @ [e])"
    if "no_later_handler k evs" "\<forall>m>k. e \<noteq> HandlerRun m" for evs e
    using that by (auto simp: no_later_handler_def)
  have perf: "?B v" if "?B t" "perform c t = Inr v" for c t v
    using that by (rule added_perform) (auto intro: app)
  have s1: "?B ?s1" using Suc.prems(2) by (simp add: added_fields)
  have s2: "?B ?s2"
    using s1 by (rule added_emit) (use Suc.prems(1) in \<open>auto intro: app\<close>)
  have "holds ?B (run_body ((hs ! ?j) ?s2) (next_handler n hs) ?s2)"
  proof (cases "?j = k")
    case True
    with veto have "next_calls ((hs ! ?j) ?s2) = 0" by simp
    from run_body_no_next[OF this, where P = ?B, OF s2] perf show ?thesis
      by blast
  next
    case False
    with Suc.prems have lt: "?j < k" by simp
    with once have o: "next_calls ((hs ! ?j) ?s2) \<le> 1" by simp
    let ?A = "\<lambda>t. h_j t = ?j + 1 \<and> ?B t"
    show ?thesis
    proof (rule run_body_once[OF o, where A = ?A])
      show "?A ?s2" using s2 by (simp add: emit_def)
      show "?A v" if "?A t" "perform c t = Inr v" for c t v
        using that perf by (auto simp: perform_fields)
      show "holds ?B (next_handler n hs t)" if "?A t" for t
        using that lt by (intro Suc.IH) auto
      show "?B v" if "?B t" "perform c t = Inr v" for c t v
        using that by (rule perf)
      show "?B t" if "?A t" for t using that by simp
    qed
  qed
  moreover have "holds ?B (status_json 500 internal_error (emit (Caught ?j) t))" if "?B t" for t
    using that by (rule added_caught) (auto intro: app)
  ultimately show ?case using s1
    by (auto simp: next_handler.simps Let_def split: result.splits)
qed

lemma routeHandler_matched:
  assumes "i < length rs"
    and "str_match pathname (regex (rs ! i)) = Some g" and "route_method (rs ! i) = method"
    and "\<forall>r<i. str_match pathname (regex (rs ! r)) = None \<or> route_method (rs ! r) \<noteq> method"
  shows "routeHandler rs method pathname s =
     next_handler (Suc (length (handlers (rs ! i)))) (handlers (rs ! i))
       (s\<lparr>trace := trace s @ [RouteLookup], params := g, h_j := 0\<rparr>)"
  using route_loop_first_match[OF assms, of "emit RouteLookup s"]
  by (simp add: routeHandler_def emit_def)

lemma late_app_middlewares: "middlewares late_app = [late, silent]"
  by (simp add: late_app_def use_def users_app_middlewares)

lemma server_error_quiet:
  "quiet k (trace t) \<Longrightarrow> holds (\<lambda>t. quiet k (trace t)) (server_error msg t)"
  by (auto simp: server_error_eq quiet_def)

subsection \<open>Errors in handlers\<close>

lemma events_after_fresh:
  "e \<notin> set evs \<Longrightarrow> events_after e (evs @ e # rest) = rest"
proof -
  assume "e \<notin> set evs"
  then have "dropWhile (\<lambda>x. x \<noteq> e) (evs @ e # rest) = dropWhile (\<lambda>x. x \<noteq> e) (e # rest)"
    by (intro dropWhile_append2) auto
  then show ?thesis by (simp add: events_after_def)
qed

lemma events_after_append:
  "e \<in> set evs \<Longrightarrow> events_after e (evs @ ys) = events_after e evs @ ys"
proof -
  assume "e \<in> set evs"
  then have ne: "dropWhile (\<lambda>x. x \<noteq> e) evs \<noteq> []"
    by (simp add: dropWhile_eq_Nil_conv)
  moreover from \<open>e \<in> set evs\<close> have "dropWhile (\<lambda>x. x \<noteq> e) (evs @ ys) = dropWhile (\<lambda>x. x \<noteq> e) evs @ ys"
    by (simp add: dropWhile_append1)
  ultimately show ?thesis
    by (cases "dropWhile (\<lambda>x. x \<noteq> e) evs") (simp_all add: events_after_def)
qed

lemma error_ends_chain_append:
  assumes "error_ends_chain k evs" and "\<forall>m>k. x \<noteq> HandlerRun m"
  shows "error_ends_chain k (evs @ [x])"
proof (cases "Caught k \<in> set evs")
  case True
  with assms show ?thesis
    by (auto simp: error_ends_chain_def events_after_append)
next
  case False
  show ?thesis
  proof (cases "x = Caught k")
    case True
    with False events_after_fresh[of "Caught k" evs "[]"] show ?thesis
      by (simp add: error_ends_chain_def)
  next
    case ne: False
    with False show ?thesis by (simp add: error_ends_chain_def)
  qed
qed

lemma next_handler_Suc_holds:
  assumes "P (s\<lparr>h_j := h_j s + 1\<rparr>)"
    and "holds Q (run_body ((hs ! h_j s) (emit (HandlerRun (h_j s)) (s\<lparr>h_j := h_j s + 1\<rparr>)))
           (next_handler n hs) (emit (HandlerRun (h_j s)) (s\<lparr>h_j := h_j s + 1\<rparr>)))"
    and "\<And>t. Q t \<Longrightarrow> holds P (status_json 500 internal_error (emit (Caught (h_j s)) t))"
    and "\<And>t. Q t \<Longrightarrow> P t"
  shows "holds P (next_handler (Suc n) hs s)"
proof (cases "h_j s < length hs")
  case False
  with assms(1) show ?thesis by (simp add: next_handler.simps Let_def)
next
  case True
  let ?r = "run_body ((hs ! h_j s) (emit (HandlerRun (h_j s)) (s\<lparr>h_j := h_j s + 1\<rparr>)))
           (next_handler n hs) (emit (HandlerRun (h_j s)) (s\<lparr>h_j := h_j s + 1\<rparr>))"
  show ?thesis
  proof (cases ?r)
    case (Normal t)
    with assms(2) have "Q t" by simp
    then have "P t" by (rule assms(4))
    with True Normal show ?thesis by (simp add: next_handler.simps Let_def)
  next
    case (Raised msg t)
    with assms(2) have "Q t" by simp
    then have "holds P (status_json 500 internal_error (emit (Caught (h_j s)) t))"
      by (rule assms(3))
    with True Raised show ?thesis by (simp add: next_handler.simps Let_def)
  next
    case OutOfFuel
    with True show ?thesis by (simp add: next_handler.simps Let_def)
  qed
qed

lemma holds_conj: "holds A r \<Longrightarrow> holds B r \<Longrightarrow> holds (\<lambda>t. A t \<and> B t) r"
  by (cases r) auto

lemma next_handler_behind:
  "k < h_j u \<Longrightarrow> added base (\<lambda>evs. Caught k \<notin> set evs) u \<Longrightarrow>
   holds (\<lambda>t. k < h_j t \<and> added base (\<lambda>evs. Caught k \<notin> set evs) t) (next_handler n hs u)"
proof (induction n arbitrary: u)
  case 0
  then show ?case by simp
next
  case (Suc n)
  let ?j = "h_j u"
  let ?s1 = "u\<lparr>h_j := ?j + 1\<rparr>"
  let ?s2 = "emit (HandlerRun ?j) ?s1"
  let ?F = "added base (\<lambda>evs. Caught k \<notin> set evs)"
  let ?P = "\<lambda>t. k < h_j t \<and> ?F t"
  have perf: "?P v" if "?P t" "perform c t = Inr v" for c t v
  proof -
    from that have "?F v" by (intro added_perform[OF _ that(2)]) auto
    moreover from that perform_fields(1)[OF that(2)] have "k < h_j v" by simp
    ultimately show ?thesis by simp
  qed
  have s1: "?P ?s1" using Suc.prems by (simp add: added_fields)
  have "?F ?s2" using s1 by (intro added_emit) auto
  then have s2: "?P ?s2" using Suc.prems(1) by (simp add: emit_def)
  have body: "holds ?P (run_body ((hs ! ?j) ?s2) (next_handler n hs) ?s2)"
  proof (rule run_body_holds[where P = ?P, OF s2])
    show "?P v" if "?P t" "perform c t = Inr v" for c t v
      using that by (rule perf)
    show "holds ?P (next_handler n hs t)" if "?P t" for t
      using that by (intro Suc.IH) simp_all
  qed
  have caught: "holds ?P (status_json 500 internal_error (emit (Caught ?j) t))" if "?P t" for t
  proof (rule holds_conj)
    show "holds (\<lambda>x. k < h_j x) (status_json 500 internal_error (emit (Caught ?j) t))"
      using that by (simp add: status_json_eq res_end_def emit_def)
    show "holds ?F (status_json 500 internal_error (emit (Caught ?j) t))"
      using that Suc.prems(1) by (intro added_caught) auto
  qed
  show ?case
    by (rule next_handler_Suc_holds[where Q = ?P, OF s1 body caught])
qed

lemma next_handler_error_ends:
  assumes once: "\<forall>m<k. \<forall>c. next_calls ((hs ! m) c) \<le> 1"
  shows "h_j u \<le> k \<Longrightarrow> added base (\<lambda>evs. Caught k \<notin> set evs) u \<Longrightarrow>
     holds (added base (error_ends_chain k)) (next_handler n hs u)"
proof (induction n arbitrary: u)
  case 0
  then show ?case by simp
next
  case (Suc n)
  let ?j = "h_j u"
  let ?s1 = "u\<lparr>h_j := ?j + 1\<rparr>"
  let ?s2 = "emit (HandlerRun ?j) ?s1"
  let ?F = "added base (\<lambda>evs. Caught k \<notin> set evs)"
  let ?B = "added base (error_ends_chain k)"
  have FB: "?B t" if "?F t" for t
    using that by (auto simp: added_def error_ends_chain_def)
  have perfF: "?F v" if "?F t" "perform c t = Inr v" for c t v
    using that by (rule added_perform) auto
  have perfB: "?B v" if "?B t" "perform c t = Inr v" for c t v
    using that by (rule added_perform) (auto intro: error_ends_chain_append)
  have s1: "?F ?s1" using Suc.prems(2) by (simp add: added_fields)
  have s2: "?F ?s2" using s1 by (rule added_emit) simp
  have caught: "holds ?B (status_json 500 internal_error (emit (Caught ?j) t))" if "?B t" for t
    using that by (rule added_caught) (auto intro: error_ends_chain_append)
  have body: "holds ?B (run_body ((hs ! ?j) ?s2) (next_handler n hs) ?s2)"
  proof (cases "?j = k")
    case True
    let ?P = "\<lambda>t. k < h_j t \<and> ?F t"
    have p2: "?P ?s2" using s2 True by (simp add: emit_def)
    have "holds ?P (run_body ((hs ! ?j) ?s2) (next_handler n hs) ?s2)"
    proof (rule run_body_holds[where P = ?P, OF p2])
      show "?P v" if "?P t" "perform c t = Inr v" for c t v
        using that perfF perform_fields(1)[OF that(2)] by auto
      show "holds ?P (next_handler n hs t)" if "?P t" for t
        using that by (intro next_handler_behind) auto
    qed
    then show ?thesis
      by (rule holds_mono) (use FB in auto)
  next
    case False
    with Suc.prems have lt: "?j < k" by simp
    let ?A = "\<lambda>t. h_j t = ?j + 1 \<and> ?F t"
    show ?thesis
    proof (rule run_body_once[where A = ?A])
      show "next_calls ((hs ! ?j) ?s2) \<le> 1" using once lt by simp
      show "?A ?s2" using s2 by (simp add: emit_def)
      show "?A v" if "?A t" "perform c t = Inr v" for c t v
        using that perfF perform_fields(1)[OF that(2)] by auto
      show "holds ?B (next_handler n hs t)" if "?A t" for t
        using that lt by (intro Suc.IH) auto
      show "?B v" if "?B t" "perform c t = Inr v" for c t v
        using that by (rule perfB)
      show "?B t" if "?A t" for t using that FB by simp
    qed
  qed
  show ?case
    by (rule next_handler_Suc_holds[where Q = ?B, OF FB[OF s1] body caught])
qed

subsection \<open>Errors in middlewares\<close>

lemma perform_Inl: "perform c s = Inl msg \<Longrightarrow> res_state s \<noteq> Open"
  by (cases c) (auto simp: res_json_def setHeader_def split: if_splits)

lemma run_body_Raised_origin:
  assumes "run_body sc nxt s = Raised msg t" and "res_state t = Open"
    and "\<And>u m v. nxt u = Raised m v \<Longrightarrow> res_state v = Open \<Longrightarrow> Q m"
    and "\<And>m. Throw m \<in> set sc \<Longrightarrow> Q m"
  shows "Q msg"
  using assms(1,4)
proof (induction sc arbitrary: s)
  case Nil
  then show ?case by simp
next
  case (Cons a sc)
  show ?case
  proof (cases a)
    case (Do c)
    show ?thesis
    proof (cases "perform c s")
      case (Inl e)
      with Cons.prems(1) Do have "t = s" by simp
      with perform_Inl[OF Inl] assms(2) show ?thesis by simp
    next
      case (Inr u)
      with Cons.prems Do show ?thesis by (intro Cons.IH[of u]) auto
    qed
  next
    case Next
    show ?thesis
    proof (cases "nxt s")
      case (Normal u)
      with Cons.prems Next show ?thesis by (intro Cons.IH[of u]) auto
    next
      case (Raised m v)
      with Cons.prems(1) Next have "m = msg" "v = t" by simp_all
      with Raised assms(2,3) show ?thesis by blast
    next
      case OutOfFuel
      with Cons.prems(1) Next show ?thesis by simp
    qed
  next
    case (Throw m)
    with Cons.prems show ?thesis by simp
  qed
qed

lemma runMiddlewares_Raised_origin:
  "runMiddlewares n a method pathname s = Raised msg t \<Longrightarrow> res_state t = Open \<Longrightarrow>
   \<exists>i<length (middlewares a). \<exists>c. Throw msg \<in> set ((middlewares a ! i) c)"
proof (induction n arbitrary: s msg t)
  case 0
  then show ?case by simp
next
  case (Suc n)
  let ?i = "mw_i s"
  let ?s2 = "emit (MiddlewareRun ?i) (s\<lparr>mw_i := ?i + 1\<rparr>)"
  show ?case
  proof (cases "?i < length (middlewares a)")
    case False
    with Suc.prems(1) have "routeHandler (routes a) method pathname (s\<lparr>mw_i := ?i + 1\<rparr>) = Raised msg t"
      by (simp add: runMiddlewares.simps Let_def)
    from routeHandler_Raised[OF this] Suc.prems(2) show ?thesis by simp
  next
    case True
    with Suc.prems(1)
    have r: "run_body ((middlewares a ! ?i) ?s2) (runMiddlewares n a method pathname) ?s2 = Raised msg t"
      by (simp add: runMiddlewares.simps Let_def)
    show ?thesis
    proof (rule run_body_Raised_origin[OF r Suc.prems(2),
          where Q = "\<lambda>m. \<exists>i<length (middlewares a). \<exists>c. Throw m \<in> set ((middlewares a ! i) c)"])
      show "\<exists>i<length (middlewares a). \<exists>c. Throw m \<in> set ((middlewares a ! i) c)"
        if "runMiddlewares n a method pathname u = Raised m v" "res_state v = Open" for u m v
        using that by (rule Suc.IH)
      show "\<exists>i<length (middlewares a). \<exists>c. Throw m \<in> set ((middlewares a ! i) c)"
        if "Throw m \<in> set ((middlewares a ! ?i) ?s2)" for m
        using that True by blast
    qed
  qed
qed

lemma run_body_throws:
  assumes "Throw m \<in> set sc" and "P s" and "\<And>c t u. P t \<Longrightarrow> perform c t = Inr u \<Longrightarrow> P u"
    and "\<And>t. P t \<Longrightarrow> nxt t \<noteq> OutOfFuel \<and> holds P (nxt t)"
  shows "\<exists>msg t. run_body sc nxt s = Raised msg t"
  using assms(1,2)
proof (induction sc arbitrary: s)
  case Nil
  then show ?case by simp
next
  case (Cons a sc)
  show ?case
  proof (cases a)
    case (Do c)
    show ?thesis
    proof (cases "perform c s")
      case (Inl e)
      with Do show ?thesis by simp
    next
      case (Inr u)
      from assms(3)[OF Cons.prems(2) Inr] Cons.prems(1) Do have "\<exists>msg t. run_body sc nxt u = Raised msg t"
        by (intro Cons.IH) auto
      with Do Inr show ?thesis by simp
    qed
  next
    case Next
    from assms(4)[OF Cons.prems(2)] have n: "nxt s \<noteq> OutOfFuel" "holds P (nxt s)" by simp_all
    show ?thesis
    proof (cases "nxt s")
      case (Normal u)
      with n Cons.prems(1) Next have "\<exists>msg t. run_body sc nxt u = Raised msg t"
        by (intro Cons.IH) auto
      with Next Normal show ?thesis by simp
    next
      case (Raised e v)
      with Next show ?thesis by simp
    next
      case OutOfFuel
      with n show ?thesis by simp
    qed
  next
    case (Throw e)
    then show ?thesis by simp
  qed
qed

lemma run_body_passes_error:
  assumes "first_stop sc = Some Next" and "A s"
    and "\<And>c t u. A t \<Longrightarrow> perform c t = Inr u \<Longrightarrow> A u"
    and "\<And>t. A t \<Longrightarrow> \<exists>msg u. nxt t = Raised msg u \<and> R msg u"
    and "\<And>c t msg. A t \<Longrightarrow> perform c t = Inl msg \<Longrightarrow> R msg t"
  shows "\<exists>msg u. run_body sc nxt s = Raised msg u \<and> R msg u"
  using assms(1,2)
proof (induction sc arbitrary: s)
  case Nil
  then show ?case by simp
next
  case (Cons a sc)
  show ?case
  proof (cases a)
    case (Do c)
    show ?thesis
    proof (cases "perform c s")
      case (Inl e)
      with assms(5)[OF Cons.prems(2) Inl] Do show ?thesis by simp
    next
      case (Inr u)
      from assms(3)[OF Cons.prems(2) Inr] Cons.prems(1) Do
      have "\<exists>msg v. run_body sc nxt u = Raised msg v \<and> R msg v"
        by (intro Cons.IH) auto
      with Do Inr show ?thesis by simp
    qed
  next
    case Next
    with assms(4)[OF Cons.prems(2)] show ?thesis by auto
  next
    case (Throw m)
    with Cons.prems show ?thesis by simp
  qed
qed

lemma run_body_throws_first:
  assumes "first_stop sc = Some (Throw msg0)" and "P s"
    and "\<And>c t u. P t \<Longrightarrow> perform c t = Inr u \<Longrightarrow> P u"
  shows "\<exists>msg t. run_body sc nxt s = Raised msg t \<and> P t \<and> (res_state t = Open \<longrightarrow> msg = msg0)"
  using assms(1,2)
proof (induction sc arbitrary: s)
  case Nil
  then show ?case by simp
next
  case (Cons a sc)
  show ?case
  proof (cases a)
    case (Do c)
    show ?thesis
    proof (cases "perform c s")
      case (Inl e)
      with perform_Inl[OF Inl] Cons.prems(2) Do show ?thesis by simp
    next
      case (Inr u)
      from assms(3)[OF Cons.prems(2) Inr] Cons.prems(1) Do
      have "\<exists>msg t. run_body sc nxt u = Raised msg t \<and> P t \<and> (res_state t = Open \<longrightarrow> msg = msg0)"
        by (intro Cons.IH) auto
      with Do Inr show ?thesis by simp
    qed
  next
    case Next
    with Cons.prems show ?thesis by simp
  next
    case (Throw m)
    with Cons.prems show ?thesis by simp
  qed
qed

lemma runMiddlewares_raises:
  assumes k: "k < length (middlewares a)"
    and pass: "\<forall>i<k. \<forall>c. first_stop ((middlewares a ! i) c) = Some Next"
    and thr: "\<forall>c. \<exists>m. Throw m \<in> set ((middlewares a ! k) c)"
  shows "mw_i s \<le> k \<Longrightarrow> length (middlewares a) < mw_i s + n \<Longrightarrow>
     \<exists>msg t. runMiddlewares n a method pathname s = Raised msg t"
proof (induction n arbitrary: s)
  case 0
  with k show ?case by simp
next
  case (Suc n)
  let ?i = "mw_i s"
  let ?s2 = "emit (MiddlewareRun ?i) (s\<lparr>mw_i := ?i + 1\<rparr>)"
  from Suc.prems k have i: "?i < length (middlewares a)" by simp
  have "\<exists>msg t. run_body ((middlewares a ! ?i) ?s2) (runMiddlewares n a method pathname) ?s2 = Raised msg t"
  proof (cases "?i = k")
    case True
    from thr True obtain m where m: "Throw m \<in> set ((middlewares a ! ?i) ?s2)" by auto
    let ?P = "\<lambda>t. ?i < mw_i t"
    show ?thesis
    proof (rule run_body_throws[OF m, where P = ?P])
      show "?P ?s2" by (simp add: emit_def)
      show "?P u" if "?P t" "perform c t = Inr u" for c t u
        using that perform_fields(2)[OF that(2)] by simp
      show "runMiddlewares n a method pathname t \<noteq> OutOfFuel \<and>
          holds ?P (runMiddlewares n a method pathname t)" if "?P t" for t
      proof -
        from that Suc.prems(2) i have "length (middlewares a) < mw_i t + n" "0 < n" by simp_all
        then have f: "runMiddlewares n a method pathname t \<noteq> OutOfFuel \<and>
            holds (\<lambda>x. mw_i t < mw_i x) (runMiddlewares n a method pathname t)"
          by (rule runMiddlewares_finishes)
        then have "holds ?P (runMiddlewares n a method pathname t)"
          using that by (elim conjE holds_mono) simp
        with f show ?thesis by simp
      qed
    qed
  next
    case False
    with Suc.prems have lt: "?i < k" by simp
    with pass have f: "first_stop ((middlewares a ! ?i) ?s2) = Some Next" by simp
    let ?A = "\<lambda>t. mw_i t = ?i + 1"
    have "\<exists>msg u. run_body ((middlewares a ! ?i) ?s2) (runMiddlewares n a method pathname) ?s2 = Raised msg u \<and> True"
    proof (rule run_body_passes_error[OF f, where A = ?A])
      show "?A ?s2" by (simp add: emit_def)
      show "?A u" if "?A t" "perform c t = Inr u" for c t u
        using that perform_fields(2)[OF that(2)] by simp
      show "\<exists>msg u. runMiddlewares n a method pathname t = Raised msg u \<and> True" if "?A t" for t
        using Suc.IH[of t] that lt Suc.prems(2) by simp
    qed simp
    then show ?thesis by simp
  qed
  with i show ?case
    by (simp add: runMiddlewares.simps Let_def)
qed

lemma runMiddlewares_throw:
  assumes k: "k < length (middlewares a)"
    and pass: "\<forall>i<k. \<forall>c. first_stop ((middlewares a ! i) c) = Some Next"
    and thr: "\<forall>c. first_stop ((middlewares a ! k) c) = Some (Throw msg0)"
    and perf: "\<And>c t u. P t \<Longrightarrow> perform c t = Inr u \<Longrightarrow> P u"
    and ev: "\<And>i t. P t \<Longrightarrow> P (emit (MiddlewareRun i) (t\<lparr>mw_i := mw_i t + 1\<rparr>))"
  shows "mw_i s \<le> k \<Longrightarrow> k - mw_i s < n \<Longrightarrow> P s \<Longrightarrow>
     \<exists>msg t. runMiddlewares n a method pathname s = Raised msg t \<and> P t \<and>
       (res_state t = Open \<longrightarrow> msg = msg0 \<and> MiddlewareRun k \<in> set (trace t))"
proof (induction n arbitrary: s)
  case 0
  then show ?case by simp
next
  case (Suc n)
  let ?i = "mw_i s"
  let ?s2 = "emit (MiddlewareRun ?i) (s\<lparr>mw_i := ?i + 1\<rparr>)"
  let ?R = "\<lambda>msg t. P t \<and> (res_state t = Open \<longrightarrow> msg = msg0 \<and> MiddlewareRun k \<in> set (trace t))"
  from Suc.prems k have i: "?i < length (middlewares a)" by simp
  have p2: "P ?s2" using ev[OF Suc.prems(3)] .
  have "\<exists>msg t. run_body ((middlewares a ! ?i) ?s2) (runMiddlewares n a method pathname) ?s2 = Raised msg t \<and> ?R msg t"
  proof (cases "?i = k")
    case True
    let ?Q = "\<lambda>t. P t \<and> MiddlewareRun k \<in> set (trace t)"
    from True thr have f: "first_stop ((middlewares a ! ?i) ?s2) = Some (Throw msg0)" by simp
    have q2: "?Q ?s2" using p2 True by (simp add: emit_def)
    have "\<exists>msg t. run_body ((middlewares a ! ?i) ?s2) (runMiddlewares n a method pathname) ?s2 = Raised msg t \<and>
        ?Q t \<and> (res_state t = Open \<longrightarrow> msg = msg0)"
    proof (rule run_body_throws_first[OF f, where P = ?Q, OF q2])
      show "?Q u" if "?Q t" "perform c t = Inr u" for c t u
        using that perf[OF _ that(2)] trace_perform[OF that(2)] by auto
    qed
    then show ?thesis by blast
  next
    case False
    with Suc.prems have lt: "?i < k" by simp
    with pass have f: "first_stop ((middlewares a ! ?i) ?s2) = Some Next" by simp
    let ?A = "\<lambda>t. mw_i t = ?i + 1 \<and> P t"
    show ?thesis
    proof (rule run_body_passes_error[OF f, where A = ?A])
      show "?A ?s2" using p2 by (simp add: emit_def)
      show "?A u" if "?A t" "perform c t = Inr u" for c t u
        using that perf[OF _ that(2)] perform_fields(2)[OF that(2)] by simp
      show "\<exists>msg u. runMiddlewares n a method pathname t = Raised msg u \<and> ?R msg u" if "?A t" for t
        using that lt Suc.prems(2) by (intro Suc.IH) auto
      show "?R msg t" if "?A t" "perform c t = Inl msg" for c t msg
        using that perform_Inl[OF that(2)] by simp
    qed
  qed
  with i show ?case
    by (simp add: runMiddlewares.simps Let_def)
qed

lemma hasty_app_middlewares: "middlewares hasty_app = [hasty]"
  by (simp add: hasty_app_def use_def users_app_middlewares)

subsection \<open>The lookup without a match\<close>

lemma routeHandler_no_match:
  assumes "\<forall>r \<in> set rs. str_match pathname (regex r) = None \<or> route_method r \<noteq> method"
  shows \<open>routeHandler rs method pathname s =
    (if res_state s = Open then
       Normal (s\<lparr>statusCode := 404,
         headers := put_header ''Content-Type'' ''application/json'' (headers s),
         res_state := Finished,
         trace := trace s @ [RouteLookup, NotFound, Ended 404 ''{"error":"Route not found"}'']\<rparr>)
     else
       Raised (ERR_HTTP_HEADERS_SENT ''set'')
         (s\<lparr>statusCode := 404, trace := trace s @ [RouteLookup, NotFound]\<rparr>))\<close>
  using route_loop_no_match[OF assms]
  by (simp add: routeHandler_def status_json_eq res_end_def emit_def stringify_not_found)

lemma stable_has_event: "stable (\<lambda>t. e \<in> set (trace t))"
  unfolding stable_def
proof (intro allI impI conjI)
  fix t c u assume "e \<in> set (trace t)" "perform c t = Inr u"
  then show "e \<in> set (trace u)"
    using trace_perform[of c t u] by auto
qed (simp_all add: emit_def)

lemma run_body_reaches:
  assumes "first_stop sc = Some Next" and "unanswered sc" and "A s"
    and "\<And>t code. A t \<Longrightarrow> A (res_status code t)"
    and "\<And>t w. A t \<Longrightarrow> A (emit (SideEffect w) t)"
    and "\<And>t. A t \<Longrightarrow> holds Q (nxt t)"
    and "\<And>c t u. Q t \<Longrightarrow> perform c t = Inr u \<Longrightarrow> Q u"
    and "\<And>t. Q t \<Longrightarrow> holds Q (nxt t)"
  shows "holds Q (run_body sc nxt s)"
  using assms(1,2,3)
proof (induction sc arbitrary: s)
  case Nil
  then show ?case by simp
next
  case (Cons a sc)
  show ?case
  proof (cases a)
    case (Do c)
    show ?thesis
    proof (cases c)
      case (Status code)
      with Cons.prems Do assms(4)[OF Cons.prems(3), of code] show ?thesis
        using Cons.IH[of "res_status code s"] by simp
    next
      case (Json d)
      with Cons.prems Do show ?thesis by simp
    next
      case (End d)
      with Cons.prems Do show ?thesis by simp
    next
      case (Perform w)
      with Cons.prems Do assms(5)[OF Cons.prems(3), of w] show ?thesis
        using Cons.IH[of "emit (SideEffect w) s"] by simp
    qed
  next
    case Next
    have "holds Q (run_body sc nxt t)" if "Q t" for t
      using that assms(7) assms(8) by (rule run_body_holds)
    with assms(6)[OF Cons.prems(3)] Next show ?thesis
      by (cases "nxt s") auto
  next
    case (Throw msg)
    with Cons.prems show ?thesis by simp
  qed
qed

lemma runMiddlewares_invariant:
  assumes "\<And>c t u. P t \<Longrightarrow> perform c t = Inr u \<Longrightarrow> P u"
    and "\<And>t i. P t \<Longrightarrow> P (emit (MiddlewareRun i) t)"
    and "\<And>t i. P t \<Longrightarrow> P (t\<lparr>mw_i := i\<rparr>)"
    and "\<And>t. P t \<Longrightarrow> holds P (routeHandler (routes a) method pathname t)"
  shows "P s \<Longrightarrow> holds P (runMiddlewares n a method pathname s)"
proof (induction n arbitrary: s)
  case 0
  then show ?case by simp
next
  case (Suc n)
  let ?s1 = "s\<lparr>mw_i := mw_i s + 1\<rparr>"
  let ?s2 = "emit (MiddlewareRun (mw_i s)) ?s1"
  from Suc.prems assms(3) have s1: "P ?s1" by blast
  then have s2: "P ?s2" using assms(2) by blast
  have "holds P (run_body ((middlewares a ! mw_i s) ?s2) (runMiddlewares n a method pathname) ?s2)"
  proof (rule run_body_holds[where P = P, OF s2])
    show "P u" if "P t" "perform c t = Inr u" for c t u
      using that by (rule assms(1))
    show "holds P (runMiddlewares n a method pathname t)" if "P t" for t
      using that by (rule Suc.IH)
  qed
  with assms(4)[OF s1] show ?case
    by (simp add: runMiddlewares.simps Let_def)
qed

lemma runMiddlewares_reaches_lookup:
  assumes pass: "\<forall>i<length (middlewares a). \<forall>c.
      first_stop ((middlewares a ! i) c) = Some Next \<and> unanswered ((middlewares a ! i) c)"
    and nomatch: "\<forall>r \<in> set (routes a). str_match pathname (regex r) = None \<or> route_method r \<noteq> method"
  shows \<open>res_state s = Open \<Longrightarrow>
     holds (\<lambda>t. Ended 404 ''{"error":"Route not found"}'' \<in> set (trace t))
       (runMiddlewares n a method pathname s)\<close>
proof (induction n arbitrary: s)
  case 0
  then show ?case by simp
next
  case (Suc n)
  let ?Q = \<open>\<lambda>t. Ended 404 ''{"error":"Route not found"}'' \<in> set (trace t)\<close>
  let ?A = "\<lambda>t. res_state t = Open"
  let ?s1 = "s\<lparr>mw_i := mw_i s + 1\<rparr>"
  let ?s2 = "emit (MiddlewareRun (mw_i s)) ?s1"
  have keep: "holds ?Q (runMiddlewares n a method pathname t)" if "?Q t" for t
    by (rule runMiddlewares_holds[OF stable_has_event]) (use that in simp_all)
  show ?case
  proof (cases "mw_i s < length (middlewares a)")
    case True
    with pass have f: "first_stop ((middlewares a ! mw_i s) ?s2) = Some Next"
      and u: "unanswered ((middlewares a ! mw_i s) ?s2)" by simp_all
    have "holds ?Q (run_body ((middlewares a ! mw_i s) ?s2) (runMiddlewares n a method pathname) ?s2)"
    proof (rule run_body_reaches[OF f u, where A = ?A])
      show "?A ?s2" using Suc.prems by (simp add: emit_def)
      show "?A (res_status code t)" if "?A t" for t code
        using that by (simp add: res_status_def)
      show "?A (emit (SideEffect w) t)" if "?A t" for t w
        using that by (simp add: emit_def)
      show "holds ?Q (runMiddlewares n a method pathname t)" if "?A t" for t
        using that by (rule Suc.IH)
      show "?Q v" if "?Q t" "perform c t = Inr v" for c t v
        using that trace_perform[OF that(2)] by auto
      show "holds ?Q (runMiddlewares n a method pathname t)" if "?Q t" for t
        using that by (rule keep)
    qed
    with True show ?thesis by (simp add: runMiddlewares.simps Let_def)
  next
    case False
    with Suc.prems show ?thesis
      by (simp add: runMiddlewares.simps Let_def routeHandler_no_match[OF nomatch])
  qed
qed

lemma responses_member: "Ended code d \<in> set evs \<Longrightarrow> (code, d) \<in> set (responses evs)"
  by (induction evs rule: responses.induct) auto

lemma only_response:
  assumes "one_response t" and "Ended code d \<in> set (trace t)"
  shows "responses (trace t) = [(code, d)]"
proof -
  from assms(2) have m: "(code, d) \<in> set (responses (trace t))" by (rule responses_member)
  from assms(1) have "length (responses (trace t)) \<le> 1" by (simp add: one_response_def)
  with m show ?thesis
    by (cases "responses (trace t)") auto
qed

lemma eager_app_fields:
  "middlewares eager_app = [eager]" "routes eager_app = routes users_app"
  by (simp_all add: eager_app_def use_def users_app_middlewares)

subsection \<open>Requests that differ in the URL\<close>

lemma url_out:
  "emit e (s\<lparr>req_url := u\<rparr>) = (emit e s)\<lparr>req_url := u\<rparr>"
  "res_status code (s\<lparr>req_url := u\<rparr>) = (res_status code s)\<lparr>req_url := u\<rparr>"
  "res_end d (s\<lparr>req_url := u\<rparr>) = (res_end d s)\<lparr>req_url := u\<rparr>"
  "(s\<lparr>req_url := u\<rparr>)\<lparr>h_j := j\<rparr> = (s\<lparr>h_j := j\<rparr>)\<lparr>req_url := u\<rparr>"
  "(s\<lparr>req_url := u\<rparr>)\<lparr>mw_i := i\<rparr> = (s\<lparr>mw_i := i\<rparr>)\<lparr>req_url := u\<rparr>"
  "(s\<lparr>req_url := u\<rparr>)\<lparr>params := g\<rparr> = (s\<lparr>params := g\<rparr>)\<lparr>req_url := u\<rparr>"
  "(s\<lparr>req_url := u\<rparr>)\<lparr>params := g, h_j := j\<rparr> = (s\<lparr>params := g, h_j := j\<rparr>)\<lparr>req_url := u\<rparr>"
  by (cases s; simp add: emit_def res_status_def res_end_def)+

lemma perform_url:
  "perform c (s\<lparr>req_url := u\<rparr>) =
     (case perform c s of Inl e \<Rightarrow> Inl e | Inr t \<Rightarrow> Inr (t\<lparr>req_url := u\<rparr>))"
  by (cases c; cases s; simp add: res_status_def res_json_def res_end_def emit_def setHeader_def)

lemma status_json_url:
  "status_json code d (s\<lparr>req_url := u\<rparr>) = with_url u (status_json code d s)"
  by (cases s) (simp add: status_json_eq res_end_def emit_def)

lemma server_error_url:
  "server_error msg (s\<lparr>req_url := u\<rparr>) = with_url u (server_error msg s)"
  by (cases s) (simp add: server_error_eq)

lemma run_body_url:
  assumes "\<And>t. nxt (t\<lparr>req_url := u\<rparr>) = with_url u (nxt t)"
  shows "run_body sc nxt (s\<lparr>req_url := u\<rparr>) = with_url u (run_body sc nxt s)"
proof (induction sc arbitrary: s)
  case Nil
  then show ?case by simp
next
  case (Cons a sc)
  show ?case
  proof (cases a)
    case (Do c)
    with Cons show ?thesis
      by (cases "perform c s") (simp_all add: perform_url)
  next
    case Next
    with Cons assms[of s] show ?thesis
      by (cases "nxt s") simp_all
  next
    case (Throw msg)
    then show ?thesis by simp
  qed
qed

lemma next_handler_url:
  assumes "\<forall>h\<in>set hs. reads_no_url h"
  shows "next_handler n hs (s\<lparr>req_url := u\<rparr>) = with_url u (next_handler n hs s)"
proof (induction n arbitrary: s)
  case 0
  then show ?case by simp
next
  case (Suc n)
  let ?j = "h_j s"
  let ?s2 = "emit (HandlerRun ?j) (s\<lparr>h_j := ?j + 1\<rparr>)"
  show ?case
  proof (cases "?j < length hs")
    case False
    then show ?thesis by (simp add: next_handler.simps Let_def url_out)
  next
    case True
    with assms have "reads_no_url (hs ! ?j)" by simp
    then have h: "(hs ! ?j) (?s2\<lparr>req_url := u\<rparr>) = (hs ! ?j) ?s2"
      by (simp add: reads_no_url_def)
    have r: "run_body ((hs ! ?j) ?s2) (next_handler n hs) (?s2\<lparr>req_url := u\<rparr>) =
        with_url u (run_body ((hs ! ?j) ?s2) (next_handler n hs) ?s2)"
      by (rule run_body_url) (rule Suc.IH)
    have l: "next_handler (Suc n) hs (s\<lparr>req_url := u\<rparr>) =
        (case run_body ((hs ! ?j) ?s2) (next_handler n hs) (?s2\<lparr>req_url := u\<rparr>) of
           Raised msg t \<Rightarrow> status_json 500 internal_error (emit (Caught ?j) t)
         | r \<Rightarrow> r)"
      using True h by (simp add: next_handler.simps Let_def url_out)
    show ?thesis
      unfolding l r using True
      by (cases "run_body ((hs ! ?j) ?s2) (next_handler n hs) ?s2")
         (simp_all add: next_handler.simps Let_def url_out status_json_url)
  qed
qed

lemma route_loop_url:
  assumes "\<forall>r\<in>set rs. \<forall>h\<in>set (handlers r). reads_no_url h"
  shows "route_loop rs method pathname (s\<lparr>req_url := u\<rparr>) = with_url u (route_loop rs method pathname s)"
  using assms
proof (induction rs)
  case Nil
  then show ?case by (simp add: url_out status_json_url)
next
  case (Cons r rs)
  then have "\<forall>h\<in>set (handlers r). reads_no_url h" by simp
  from next_handler_url[OF this] Cons show ?case
    by (auto simp: url_out split: option.splits)
qed

lemma routeHandler_url:
  assumes "\<forall>r\<in>set rs. \<forall>h\<in>set (handlers r). reads_no_url h"
  shows "routeHandler rs method pathname (s\<lparr>req_url := u\<rparr>) = with_url u (routeHandler rs method pathname s)"
  by (simp add: routeHandler_def url_out route_loop_url[OF assms])

lemma runMiddlewares_url:
  assumes "url_blind a"
  shows "runMiddlewares n a method pathname (s\<lparr>req_url := u\<rparr>) =
     with_url u (runMiddlewares n a method pathname s)"
proof (induction n arbitrary: s)
  case 0
  then show ?case by simp
next
  case (Suc n)
  let ?i = "mw_i s"
  let ?s2 = "emit (MiddlewareRun ?i) (s\<lparr>mw_i := ?i + 1\<rparr>)"
  show ?case
  proof (cases "?i < length (middlewares a)")
    case False
    from assms have "\<forall>r\<in>set (routes a). \<forall>h\<in>set (handlers r). reads_no_url h"
      by (simp add: url_blind_def)
    from routeHandler_url[OF this] False show ?thesis
      by (simp add: runMiddlewares.simps Let_def url_out)
  next
    case True
    with assms have "reads_no_url (middlewares a ! ?i)" by (simp add: url_blind_def)
    then have h: "(middlewares a ! ?i) (?s2\<lparr>req_url := u\<rparr>) = (middlewares a ! ?i) ?s2"
      by (simp add: reads_no_url_def)
    have "run_body ((middlewares a ! ?i) ?s2) (runMiddlewares n a method pathname) (?s2\<lparr>req_url := u\<rparr>) =
        with_url u (run_body ((middlewares a ! ?i) ?s2) (runMiddlewares n a method pathname) ?s2)"
      by (rule run_body_url) (rule Suc.IH)
    with True h show ?thesis
      by (simp add: runMiddlewares.simps Let_def url_out)
  qed
qed

lemma arrive_url: "arrive (rq\<lparr>rq_url := u\<rparr>) = (arrive rq)\<lparr>req_url := u\<rparr>"
  by (simp add: arrive_def)

lemma parseBody_url: "parseBody J (s\<lparr>req_url := u\<rparr>) = (parseBody J s)\<lparr>req_url := u\<rparr>"
  by (cases s) (simp add: parseBody_def split: option.splits)

lemma runMiddlewares_no_middleware:
  "middlewares a = [] \<Longrightarrow>
   runMiddlewares (Suc n) a method pathname s =
     routeHandler (routes a) method pathname (s\<lparr>mw_i := mw_i s + 1\<rparr>)"
  by (simp add: runMiddlewares.simps Let_def)

subsection \<open>The claims\<close>

text \<open>
  Claim C1. A pattern made of fixed segments and parameters \<open>:name\<close> (with names the
  regular expression accepts, no name twice) is registered with an expression that
  matches every path of its shape, whatever non-empty text without a slash stands in
  the place of each parameter, and the match binds each name to that text, in the
  order of the pattern; \<open>/users/:id/posts/:postId\<close> on \<open>/users/42/posts/7\<close> gives
  \<open>id = 42\<close> and \<open>postId = 7\<close>.
\<close>

theorem parameters_are_the_path_segments:
  assumes "sgs \<noteq> []" and "list_all well_formed sgs" and "distinct (names_of sgs)"
  shows "\<exists>re. pathToRegex (pattern_of sgs) = Inr (re, names_of sgs) \<and>
      register m (pattern_of sgs) hs a =
        Inr (a\<lparr>routes := routes a @ [\<lparr>route_method = m, regex = re, handlers = hs\<rparr>]\<rparr>) \<and>
      str_match (path_of sgs) re = Some (bindings sgs) \<and>
      routeHandler [\<lparr>route_method = m, regex = re, handlers = hs\<rparr>] m (path_of sgs) s =
        next_handler (Suc (length hs)) hs
          (s\<lparr>trace := trace s @ [RouteLookup], params := bindings sgs, h_j := 0\<rparr>)"
proof -
  have re: "pathToRegex (pattern_of sgs) = Inr (nodes_of sgs, names_of sgs)"
    using assms by (rule pathToRegex_pattern_of)
  have m: "str_match (path_of sgs) (nodes_of sgs) = Some (bindings sgs)"
    using match_nodes_path_of[OF assms(2)] by (simp add: str_match_def)
  have "routeHandler [\<lparr>route_method = m, regex = nodes_of sgs, handlers = hs\<rparr>] m (path_of sgs) s =
        next_handler (Suc (length hs)) hs
          (s\<lparr>trace := trace s @ [RouteLookup], params := bindings sgs, h_j := 0\<rparr>)"
    using m by (simp add: routeHandler_def emit_def)
  with re m show ?thesis
    by (simp add: register_def)
qed

theorem parameters_are_the_path_segments_witness:
  "\<exists>re. pathToRegex ''/users/:id/posts/:postId'' = Inr (re, [''id'', ''postId'']) \<and>
      register ''GET'' ''/users/:id/posts/:postId'' [show_user] replicax =
        Inr (replicax\<lparr>routes := routes replicax @ [\<lparr>route_method = ''GET'', regex = re, handlers = [show_user]\<rparr>]\<rparr>) \<and>
      str_match ''/users/42/posts/7'' re = Some [(''id'', ''42''), (''postId'', ''7'')] \<and>
      routeHandler [\<lparr>route_method = ''GET'', regex = re, handlers = [show_user]\<rparr>] ''GET'' ''/users/42/posts/7''
          (arrive (request_for ''GET'' ''/users/42/posts/7'' [])) =
        next_handler (Suc (length [show_user])) [show_user]
          ((arrive (request_for ''GET'' ''/users/42/posts/7'' []))
             \<lparr>trace := trace (arrive (request_for ''GET'' ''/users/42/posts/7'' [])) @ [RouteLookup],
              params := [(''id'', ''42''), (''postId'', ''7'')], h_j := 0\<rparr>)"
proof -
  have wf: "list_all well_formed [Fixed ''users'', Param ''id'' ''42'', Fixed ''posts'', Param ''postId'' ''7'']"
    by (simp add: plain_char_def valid_name_def is_metachar_def is_key_char_def is_digit_def backslash_def)
  show ?thesis
    using parameters_are_the_path_segments[of
        "[Fixed ''users'', Param ''id'' ''42'', Fixed ''posts'', Param ''postId'' ''7'']"
        "''GET''" "[show_user]" replicax "arrive (request_for ''GET'' ''/users/42/posts/7'' [])"] wf
    by simp
qed

text \<open>
  Claim C2. Routes are tried in the order of registration: \<open>register\<close> puts a route
  behind the routes that are there, and the lookup runs through \<open>routes\<close> from the
  front. When the route at position \<open>i\<close> matches the path and has the request's method,
  and no route before it does, the request goes to the handlers of route \<open>i\<close> with the
  parameters of that match, whatever the routes behind it are.
\<close>

theorem first_registered_match_wins:
  assumes "i < length rs"
    and "str_match pathname (regex (rs ! i)) = Some g" and "route_method (rs ! i) = method"
    and "\<forall>k<i. str_match pathname (regex (rs ! k)) = None \<or> route_method (rs ! k) \<noteq> method"
  shows "routeHandler rs method pathname s =
     next_handler (Suc (length (handlers (rs ! i)))) (handlers (rs ! i))
       (s\<lparr>trace := trace s @ [RouteLookup], params := g, h_j := 0\<rparr>) \<and>
     (\<forall>m path hs a b. register m path hs a = Inr b \<longrightarrow>
        (\<exists>re. routes b = routes a @ [\<lparr>route_method = m, regex = re, handlers = hs\<rparr>]))"
proof -
  have "routeHandler rs method pathname s =
     next_handler (Suc (length (handlers (rs ! i)))) (handlers (rs ! i))
       (s\<lparr>trace := trace s @ [RouteLookup], params := g, h_j := 0\<rparr>)"
    using route_loop_first_match[OF assms, of "emit RouteLookup s"]
    by (simp add: routeHandler_def emit_def)
  with register_appends show ?thesis by blast
qed

theorem first_registered_match_wins_witness:
  "routeHandler (routes users_app) ''GET'' ''/users/me'' (arrive (request_for ''GET'' ''/users/me'' [])) =
     next_handler 2 [show_user]
       ((arrive (request_for ''GET'' ''/users/me'' []))\<lparr>trace := [RouteLookup], params := [(''id'', ''me'')], h_j := 0\<rparr>) \<and>
   str_match ''/users/me'' (regex (routes users_app ! 1)) = Some [] \<and>
   route_method (routes users_app ! 1) = ''GET''"
proof -
  have a: "str_match ''/users/me'' users_id = Some [(''id'', ''me'')]"
    by code_simp
  have b: "str_match ''/users/me'' users_me = Some []"
    by code_simp
  show ?thesis
    using first_registered_match_wins[of 0 "routes users_app" "''/users/me''" "[(''id'', ''me'')]" "''GET''"
        "arrive (request_for ''GET'' ''/users/me'' [])"] a b
    by (simp add: users_app_routes arrive_def numeral_2_eq_2)
qed

text \<open>
  Claim C3, amended. When the middleware at position \<open>k\<close> does not call \<open>next()\<close>, and no
  middleware before it calls \<open>next()\<close> more than once, the request goes no further: no
  middleware behind \<open>k\<close> runs, no route is looked up, no handler runs, and neither the
  404 answer nor the 500 answer of the handlers' \<open>catch\<close> is produced. A response that was
  sent is final: at most one response is sent for the request.
\<close>

theorem vetoing_middleware_stops_the_request:
  assumes "U (rq_url rq) (rq_host rq) = Inr p"
    and "k < length (middlewares a)"
    and "\<forall>c. next_calls ((middlewares a ! k) c) = 0"
    and "\<forall>i<k. \<forall>c. next_calls ((middlewares a ! i) c) \<le> 1"
  shows "\<exists>t. outcome (handleRequest U J a rq) = Some t \<and>
      (\<forall>i>k. MiddlewareRun i \<notin> set (trace t)) \<and> RouteLookup \<notin> set (trace t) \<and>
      NotFound \<notin> set (trace t) \<and>
      (\<forall>j. HandlerRun j \<notin> set (trace t) \<and> Caught j \<notin> set (trace t)) \<and>
      length (responses (trace t)) \<le> 1"
proof -
  let ?s0 = "parseBody J (arrive rq)"
  have "holds (\<lambda>t. quiet k (trace t))
     (runMiddlewares (Suc (length (middlewares a))) a (rq_method rq) (cleanPath p) ?s0)"
    by (rule runMiddlewares_quiet[OF assms(2,3,4)])
       (simp_all add: parseBody_fields arrive_def quiet_def)
  then have "holds (\<lambda>t. quiet k (trace t)) (handleRequest U J a rq)"
    unfolding handleRequest_dispatch[where U = U and rq = rq, OF assms(1)]
    by (auto split: result.splits simp: server_error_quiet)
  moreover obtain t where t: "outcome (handleRequest U J a rq) = Some t"
    using outcome_finishes[OF handleRequest_returns] by blast
  ultimately have "quiet k (trace t)"
    by (rule holds_outcome)
  moreover have "one_response t"
    using handleRequest_one_response t by (rule holds_outcome)
  ultimately show ?thesis
    using t unfolding quiet_def one_response_def by blast
qed

theorem vetoing_middleware_stops_the_request_witness:
  "\<exists>t. outcome (handleRequest path_only parse_a1 guarded_app (request_for ''GET'' ''/users/7'' [])) = Some t \<and>
      MiddlewareRun 2 \<notin> set (trace t) \<and> RouteLookup \<notin> set (trace t) \<and>
      NotFound \<notin> set (trace t) \<and> HandlerRun 0 \<notin> set (trace t) \<and> Caught 0 \<notin> set (trace t) \<and>
      length (responses (trace t)) \<le> 1"
proof -
  have "\<exists>t. outcome (handleRequest path_only parse_a1 guarded_app (request_for ''GET'' ''/users/7'' [])) = Some t \<and>
      (\<forall>i>1. MiddlewareRun i \<notin> set (trace t)) \<and> RouteLookup \<notin> set (trace t) \<and>
      NotFound \<notin> set (trace t) \<and>
      (\<forall>j. HandlerRun j \<notin> set (trace t) \<and> Caught j \<notin> set (trace t)) \<and>
      length (responses (trace t)) \<le> 1"
    by (rule vetoing_middleware_stops_the_request[where p = "''/users/7''"])
       (simp_all add: path_only_def request_for_def guarded_app_middlewares logger_def deny_def
          always_def less_Suc_eq)
  then show ?thesis by force
qed

text \<open>
  Claim C3 as stated fails in its last part, that the response is whatever the
  middleware that did not call \<open>next()\<close> produced. A middleware that throws calls no
  \<open>next()\<close> and produces no response, and the \<open>catch\<close> of \<open>handleRequest\<close> answers 500; and
  behind a middleware that does nothing at all, an earlier one that called \<open>next()\<close>
  first can still answer.
\<close>

theorem middleware_without_next_counterexample:
  \<open>next_calls (broken (arrive (request_for ''GET'' ''/users/7'' []))) = 0 \<and>
   handleRequest path_only parse_a1 broken_app (request_for ''GET'' ''/users/7'' []) =
     Normal \<lparr>req_method = ''GET'', req_url = ''/users/7'', req_host = ''localhost'', stream = [],
       params = [], body = JObj [], statusCode = 500,
       headers = [(''Content-Type'', ''application/json'')], res_state = Finished,
       mw_i = 2, h_j = 0,
       trace = [MiddlewareRun 0, SideEffect ''log'', MiddlewareRun 1,
                Ended 500 ''{"error":"Server error","message":"bad token"}'']\<rparr> \<and>
   next_calls (silent (arrive (request_for ''GET'' ''/users/7'' []))) = 0 \<and>
   handleRequest path_only parse_a1 late_app (request_for ''GET'' ''/users/7'' []) =
     Normal \<lparr>req_method = ''GET'', req_url = ''/users/7'', req_host = ''localhost'', stream = [],
       params = [], body = JObj [], statusCode = 200, headers = [], res_state = Finished,
       mw_i = 2, h_j = 0,
       trace = [MiddlewareRun 0, MiddlewareRun 1, Ended 200 ''late'']\<rparr>\<close>
  by (simp add: handleRequest_def path_only_def request_for_def broken_app_middlewares
      late_app_middlewares runMiddlewares.simps Let_def arrive_def parseBody_def emit_def
      logger_def broken_def late_def silent_def always_def server_error_def writeHead_def
      put_header_def res_end_def quote_def escape_char_def backslash_def)

text \<open>
  Claim C4, amended. In the matched route, when the handler at position \<open>k\<close> does not
  call \<open>next()\<close> and no handler before it calls \<open>next()\<close> more than once, no handler
  behind \<open>k\<close> runs; so when the first handler does not call \<open>next()\<close>, the second never
  runs. This holds whether the lookup returns or throws, and it throws only when a
  response was sent before. (The counterexample that follows the witness shows what a
  second call does: \<open>j\<close> is shared by all calls of \<open>next\<close>, so the first handler's second
  \<open>next()\<close> starts the third handler although the second has not called \<open>next()\<close>.)
\<close>

theorem handler_without_next_ends_the_chain:
  assumes "i < length rs"
    and "str_match pathname (regex (rs ! i)) = Some g" and "route_method (rs ! i) = method"
    and "\<forall>r<i. str_match pathname (regex (rs ! r)) = None \<or> route_method (rs ! r) \<noteq> method"
    and "k < length (handlers (rs ! i))"
    and "\<forall>c. next_calls ((handlers (rs ! i) ! k) c) = 0"
    and "\<forall>m<k. \<forall>c. next_calls ((handlers (rs ! i) ! m) c) \<le> 1"
  shows "(\<exists>t evs. outcome (routeHandler rs method pathname s) = Some t \<and>
       trace t = trace s @ RouteLookup # evs \<and> (\<forall>m>k. HandlerRun m \<notin> set evs)) \<and>
     (\<forall>msg u. routeHandler rs method pathname s = Raised msg u \<longrightarrow> res_state u \<noteq> Open)"
proof -
  let ?hs = "handlers (rs ! i)"
  let ?s0 = "s\<lparr>trace := trace s @ [RouteLookup], params := g, h_j := 0\<rparr>"
  let ?base = "trace s @ [RouteLookup]"
  have "holds (added ?base (no_later_handler k)) (next_handler (Suc (length ?hs)) ?hs ?s0)"
    by (rule next_handler_stops[OF assms(6,7)]) (simp_all add: added_def no_later_handler_def)
  moreover obtain t where "outcome (routeHandler rs method pathname s) = Some t"
    using outcome_finishes[OF routeHandler_finishes] by blast
  ultimately have "\<exists>t evs. outcome (routeHandler rs method pathname s) = Some t \<and>
       trace t = trace s @ RouteLookup # evs \<and> (\<forall>m>k. HandlerRun m \<notin> set evs)"
    unfolding routeHandler_matched[OF assms(1-4)]
    by (auto simp: added_def no_later_handler_def dest: holds_outcome)
  then show ?thesis
    using routeHandler_Raised by blast
qed

theorem handler_without_next_ends_the_chain_witness:
  "\<exists>t evs. outcome (routeHandler (routes (one_route ''/chain'' [deny, show_me])) ''GET'' ''/chain''
        (arrive (request_for ''GET'' ''/chain'' []))) = Some t \<and>
     trace t = RouteLookup # evs \<and> HandlerRun 1 \<notin> set evs"
proof -
  have "\<exists>t evs. outcome (routeHandler (routes (one_route ''/chain'' [deny, show_me])) ''GET'' ''/chain''
        (arrive (request_for ''GET'' ''/chain'' []))) = Some t \<and>
     trace t = trace (arrive (request_for ''GET'' ''/chain'' [])) @ RouteLookup # evs \<and>
     (\<forall>m>0. HandlerRun m \<notin> set evs)"
    by (rule handler_without_next_ends_the_chain[where i = 0 and g = "[]", THEN conjunct1])
       (simp_all add: one_route_chain match_chain deny_def always_def)
  then show ?thesis
    by (force simp: arrive_def)
qed

text \<open>
  Claim C4 as stated fails on three handlers, the first calling \<open>next()\<close> twice, the
  second not at all: the third runs.
\<close>

theorem handler_without_next_counterexample:
  "routeHandler (routes (one_route ''/chain'' [twice, silent, third])) ''GET'' ''/chain''
      (arrive (request_for ''GET'' ''/chain'' [])) =
     Normal \<lparr>req_method = ''GET'', req_url = ''/chain'', req_host = ''localhost'', stream = [],
       params = [], body = JNull, statusCode = 200, headers = [], res_state = Open,
       mw_i = 0, h_j = 3,
       trace = [RouteLookup, HandlerRun 0, HandlerRun 1, HandlerRun 2, SideEffect ''third'']\<rparr> \<and>
   next_calls (silent (arrive (request_for ''GET'' ''/chain'' []))) = 0"
  by (simp add: run_simps twice_def silent_def third_def)

text \<open>
  Claim C5, amended. In the matched route, an error that the handler at position \<open>k\<close>
  throws is caught by the call of \<open>next\<close> that started this handler. When no response
  has been sent, the \<open>catch\<close> answers 500 with the body \<open>{"error":"Internal Server Error"}\<close>
  and \<open>next\<close> returns normally; when one has been sent, the \<open>catch\<close> sends nothing, and
  \<open>res.setHeader\<close> throws in it to the caller of \<open>next\<close>. No handler behind \<open>k\<close> runs after
  the error, provided no handler before \<open>k\<close> calls \<open>next()\<close> more than once.
\<close>

theorem throwing_handler_gets_500:
  assumes "i < length rs"
    and "str_match pathname (regex (rs ! i)) = Some g" and "route_method (rs ! i) = method"
    and "\<forall>r<i. str_match pathname (regex (rs ! r)) = None \<or> route_method (rs ! r) \<noteq> method"
    and "k < length (handlers (rs ! i))"
    and "\<forall>m<k. \<forall>c. next_calls ((handlers (rs ! i) ! m) c) \<le> 1"
  shows \<open>(\<forall>n u v msg. h_j u = k \<and>
        run_body ((handlers (rs ! i) ! k) (emit (HandlerRun k) (u\<lparr>h_j := k + 1\<rparr>)))
          (next_handler n (handlers (rs ! i))) (emit (HandlerRun k) (u\<lparr>h_j := k + 1\<rparr>)) = Raised msg v \<longrightarrow>
        next_handler (Suc n) (handlers (rs ! i)) u =
          (if res_state v = Open then
             Normal (v\<lparr>statusCode := 500,
               headers := put_header ''Content-Type'' ''application/json'' (headers v),
               res_state := Finished,
               trace := trace v @ [Caught k, Ended 500 ''{"error":"Internal Server Error"}'']\<rparr>)
           else
             Raised (ERR_HTTP_HEADERS_SENT ''set'')
               (v\<lparr>statusCode := 500, trace := trace v @ [Caught k]\<rparr>))) \<and>
     (\<exists>t evs. outcome (routeHandler rs method pathname s) = Some t \<and>
        trace t = trace s @ RouteLookup # evs \<and>
        (Caught k \<in> set evs \<longrightarrow> (\<forall>m>k. HandlerRun m \<notin> set (events_after (Caught k) evs))))\<close>
proof -
  let ?hs = "handlers (rs ! i)"
  let ?s0 = "s\<lparr>trace := trace s @ [RouteLookup], params := g, h_j := 0\<rparr>"
  let ?base = "trace s @ [RouteLookup]"
  have "holds (added ?base (error_ends_chain k)) (next_handler (Suc (length ?hs)) ?hs ?s0)"
    by (rule next_handler_error_ends[OF assms(6)]) (simp_all add: added_def)
  moreover obtain t where "outcome (routeHandler rs method pathname s) = Some t"
    using outcome_finishes[OF routeHandler_finishes] by blast
  ultimately have "\<exists>t evs. outcome (routeHandler rs method pathname s) = Some t \<and>
        trace t = trace s @ RouteLookup # evs \<and> error_ends_chain k evs"
    unfolding routeHandler_matched[OF assms(1-4)]
    by (auto simp: added_def dest: holds_outcome)
  moreover have \<open>next_handler (Suc n) ?hs u =
          (if res_state v = Open then
             Normal (v\<lparr>statusCode := 500,
               headers := put_header ''Content-Type'' ''application/json'' (headers v),
               res_state := Finished,
               trace := trace v @ [Caught k, Ended 500 ''{"error":"Internal Server Error"}'']\<rparr>)
           else
             Raised (ERR_HTTP_HEADERS_SENT ''set'')
               (v\<lparr>statusCode := 500, trace := trace v @ [Caught k]\<rparr>))\<close>
    if "h_j u = k" "run_body ((?hs ! k) (emit (HandlerRun k) (u\<lparr>h_j := k + 1\<rparr>)))
          (next_handler n ?hs) (emit (HandlerRun k) (u\<lparr>h_j := k + 1\<rparr>)) = Raised msg v"
    for n u v msg
    using that assms(5)
    by (simp add: next_handler.simps Let_def status_json_eq res_end_def emit_def
        stringify_internal_error)
  ultimately show ?thesis
    unfolding error_ends_chain_def by blast
qed

theorem throwing_handler_gets_500_witness:
  \<open>\<exists>t evs. outcome (routeHandler (routes (one_route ''/chain'' [first, faulty, third])) ''GET'' ''/chain''
        (arrive (request_for ''GET'' ''/chain'' []))) = Some t \<and>
     trace t = RouteLookup # evs \<and>
     evs = [HandlerRun 0, SideEffect ''first'', HandlerRun 1, Caught 1,
            Ended 500 ''{"error":"Internal Server Error"}''] \<and>
     events_after (Caught 1) evs = [Ended 500 ''{"error":"Internal Server Error"}''] \<and>
     HandlerRun 2 \<notin> set (events_after (Caught 1) evs)\<close>
proof -
  let ?rq = "arrive (request_for ''GET'' ''/chain'' [])"
  let ?rs = "routes (one_route ''/chain'' [first, faulty, third])"
  have run: \<open>trace (the (outcome (routeHandler ?rs ''GET'' ''/chain'' ?rq))) =
      [RouteLookup, HandlerRun 0, SideEffect ''first'', HandlerRun 1, Caught 1,
       Ended 500 ''{"error":"Internal Server Error"}'']\<close>
    by (simp add: run_simps first_def faulty_def third_def stringify_internal_error)
  have \<open>\<exists>t evs. outcome (routeHandler ?rs ''GET'' ''/chain'' ?rq) = Some t \<and>
        trace t = trace ?rq @ RouteLookup # evs \<and>
        (Caught 1 \<in> set evs \<longrightarrow> (\<forall>m>1. HandlerRun m \<notin> set (events_after (Caught 1) evs)))\<close>
    by (rule throwing_handler_gets_500[where i = 0 and g = "[]" and k = 1, THEN conjunct2])
       (simp_all add: one_route_chain match_chain first_def always_def)
  then obtain t evs where t: "outcome (routeHandler ?rs ''GET'' ''/chain'' ?rq) = Some t"
    and tr: "trace t = trace ?rq @ RouteLookup # evs"
    and imp: \<open>Caught 1 \<in> set evs \<longrightarrow> (\<forall>m>1. HandlerRun m \<notin> set (events_after (Caught 1) evs))\<close>
    by blast
  from run t tr have evs: \<open>evs = [HandlerRun 0, SideEffect ''first'', HandlerRun 1, Caught 1,
            Ended 500 ''{"error":"Internal Server Error"}'']\<close>
    by (simp add: arrive_def)
  with imp have \<open>\<forall>m>1. HandlerRun m \<notin> set (events_after (Caught 1) evs)\<close>
    by simp
  with t tr evs show ?thesis
    by (auto simp: arrive_def events_after_def)
qed

text \<open>
  Claim C5 as stated fails in two ways. A handler that has answered before it throws
  keeps its answer: the response does not become the 500, and the \<open>catch\<close> throws. And
  on three handlers, the first calling \<open>next()\<close> twice, the second throwing, the error is
  answered with 500, and then the third handler runs.
\<close>

theorem throwing_handler_counterexample:
  \<open>routeHandler (routes (one_route ''/chain'' [hasty])) ''GET'' ''/chain''
      (arrive (request_for ''GET'' ''/chain'' [])) =
     Raised ''Cannot set headers after they are sent to the client''
       \<lparr>req_method = ''GET'', req_url = ''/chain'', req_host = ''localhost'', stream = [],
        params = [], body = JNull, statusCode = 500,
        headers = [(''Content-Type'', ''application/json'')], res_state = Finished,
        mw_i = 0, h_j = 1,
        trace = [RouteLookup, HandlerRun 0, Ended 200 ''{"ok":true}'', Caught 0]\<rparr> \<and>
   routeHandler (routes (one_route ''/chain'' [twice, faulty, third])) ''GET'' ''/chain''
      (arrive (request_for ''GET'' ''/chain'' [])) =
     Normal \<lparr>req_method = ''GET'', req_url = ''/chain'', req_host = ''localhost'', stream = [],
       params = [], body = JNull, statusCode = 500,
       headers = [(''Content-Type'', ''application/json'')], res_state = Finished,
       mw_i = 0, h_j = 3,
       trace = [RouteLookup, HandlerRun 0, HandlerRun 1, Caught 1,
                Ended 500 ''{"error":"Internal Server Error"}'',
                HandlerRun 2, SideEffect ''third'']\<rparr>\<close>
  by (simp add: run_simps hasty_def twice_def faulty_def third_def stringify_internal_error
      ERR_HTTP_HEADERS_SENT_def quote_def escape_char_def backslash_def)

text \<open>
  Claim C6, amended. An error thrown in a global middleware that the request comes to
  (every middleware before it calls \<open>next()\<close>) is not caught by the \<open>try\<close> around the
  route handlers: an error leaves \<open>runMiddlewares\<close> and reaches the \<open>catch\<close> of
  \<open>handleRequest\<close>. When no response has been sent, the \<open>catch\<close> answers 500 with the body
  \<open>{"error":"Server error","message":...}\<close>, not the body of the handlers' \<open>catch\<close>, and the
  message is that of an error thrown by a middleware; when the middleware throws before
  it calls \<open>next()\<close>, it is the message of that error, and no route has been looked up.
  When a response has been sent, \<open>res.writeHead\<close> throws in the \<open>catch\<close>: nothing is sent,
  and \<open>handleRequest\<close> ends with that error.
\<close>

theorem middleware_error_reaches_outer_catch:
  assumes "U (rq_url rq) (rq_host rq) = Inr p"
    and "k < length (middlewares a)"
    and "\<forall>i<k. \<forall>c. first_stop ((middlewares a ! i) c) = Some Next"
    and "\<forall>c. \<exists>m. Throw m \<in> set ((middlewares a ! k) c)"
  shows \<open>\<exists>msg t.
      runMiddlewares (Suc (length (middlewares a))) a (rq_method rq) (cleanPath p)
        (parseBody J (arrive rq)) = Raised msg t \<and>
      handleRequest U J a rq =
        (if res_state t = Open then
           Normal (t\<lparr>statusCode := 500,
             headers := put_header ''Content-Type'' ''application/json'' (headers t),
             res_state := Finished,
             trace := trace t @
               [Ended 500 (''{"error":"Server error","message":'' @ quote msg @ ''}'')]\<rparr>)
         else Raised (ERR_HTTP_HEADERS_SENT ''write'') t) \<and>
      ''{"error":"Server error","message":'' @ quote msg @ ''}'' \<noteq> JSON_stringify internal_error \<and>
      (res_state t = Open \<longrightarrow>
         (\<exists>i<length (middlewares a). \<exists>c. Throw msg \<in> set ((middlewares a ! i) c))) \<and>
      ((\<forall>c. first_stop ((middlewares a ! k) c) = Some (Throw msg0)) \<longrightarrow>
         RouteLookup \<notin> set (trace t) \<and>
         (\<forall>j. HandlerRun j \<notin> set (trace t) \<and> Caught j \<notin> set (trace t)) \<and>
         (res_state t = Open \<longrightarrow> msg = msg0 \<and> MiddlewareRun k \<in> set (trace t)))\<close>
proof -
  let ?s0 = "parseBody J (arrive rq)"
  let ?run = "runMiddlewares (Suc (length (middlewares a))) a (rq_method rq) (cleanPath p) ?s0"
  let ?P = "\<lambda>t. RouteLookup \<notin> set (trace t) \<and> (\<forall>j. HandlerRun j \<notin> set (trace t) \<and> Caught j \<notin> set (trace t))"
  have s0: "mw_i ?s0 = 0" "trace ?s0 = []"
    by (simp_all add: parseBody_fields arrive_def)
  have "\<exists>msg t. ?run = Raised msg t"
    by (rule runMiddlewares_raises[OF assms(2,3,4)]) (simp_all add: s0)
  then obtain msg t where run: "?run = Raised msg t"
    by blast
  have hr: \<open>handleRequest U J a rq =
        (if res_state t = Open then
           Normal (t\<lparr>statusCode := 500,
             headers := put_header ''Content-Type'' ''application/json'' (headers t),
             res_state := Finished,
             trace := trace t @
               [Ended 500 (''{"error":"Server error","message":'' @ quote msg @ ''}'')]\<rparr>)
         else Raised (ERR_HTTP_HEADERS_SENT ''write'') t)\<close>
    unfolding handleRequest_dispatch[where U = U and rq = rq, OF assms(1)] run
    by (simp add: server_error_eq)
  have ne: \<open>''{"error":"Server error","message":'' @ quote msg @ ''}'' \<noteq> JSON_stringify internal_error\<close>
    by (simp add: stringify_internal_error)
  have origin: "res_state t = Open \<longrightarrow>
         (\<exists>i<length (middlewares a). \<exists>c. Throw msg \<in> set ((middlewares a ! i) c))"
    using runMiddlewares_Raised_origin[OF run] by blast
  have first: "RouteLookup \<notin> set (trace t) \<and>
         (\<forall>j. HandlerRun j \<notin> set (trace t) \<and> Caught j \<notin> set (trace t)) \<and>
         (res_state t = Open \<longrightarrow> msg = msg0 \<and> MiddlewareRun k \<in> set (trace t))"
    if thr: "\<forall>c. first_stop ((middlewares a ! k) c) = Some (Throw msg0)"
  proof -
    have perf: "?P u" if "?P v" "perform c v = Inr u" for c v u
      using that trace_perform[OF that(2)] by auto
    have "\<exists>m u. ?run = Raised m u \<and> ?P u \<and>
        (res_state u = Open \<longrightarrow> m = msg0 \<and> MiddlewareRun k \<in> set (trace u))"
    proof (rule runMiddlewares_throw[OF assms(2,3) thr, where P = ?P])
      show "?P u" if "?P v" "perform c v = Inr u" for c v u
        using that by (rule perf)
      show "?P (emit (MiddlewareRun i) (v\<lparr>mw_i := mw_i v + 1\<rparr>))" if "?P v" for i v
        using that by (simp add: emit_def)
      show "mw_i ?s0 \<le> k" by (simp add: s0)
      show "k - mw_i ?s0 < Suc (length (middlewares a))" using assms(2) by (simp add: s0)
      show "?P ?s0" by (simp add: s0)
    qed
    with run show ?thesis by auto
  qed
  have last: "(\<forall>c. first_stop ((middlewares a ! k) c) = Some (Throw msg0)) \<longrightarrow>
         RouteLookup \<notin> set (trace t) \<and>
         (\<forall>j. HandlerRun j \<notin> set (trace t) \<and> Caught j \<notin> set (trace t)) \<and>
         (res_state t = Open \<longrightarrow> msg = msg0 \<and> MiddlewareRun k \<in> set (trace t))"
    using first by (rule impI)
  show ?thesis
    by (rule exI[of _ msg], rule exI[of _ t], intro conjI) (rule run hr ne origin last)+
qed

theorem middleware_error_reaches_outer_catch_witness:
  \<open>handleRequest path_only parse_a1 broken_app (request_for ''GET'' ''/users/7'' []) =
     Normal \<lparr>req_method = ''GET'', req_url = ''/users/7'', req_host = ''localhost'', stream = [],
       params = [], body = JObj [], statusCode = 500,
       headers = [(''Content-Type'', ''application/json'')], res_state = Finished,
       mw_i = 2, h_j = 0,
       trace = [MiddlewareRun 0, SideEffect ''log'', MiddlewareRun 1,
                Ended 500 ''{"error":"Server error","message":"bad token"}'']\<rparr>\<close>
proof -
  let ?rq = "request_for ''GET'' ''/users/7'' []"
  have h1: "path_only (rq_url ?rq) (rq_host ?rq) = Inr ''/users/7''"
    by (simp add: path_only_def request_for_def)
  have h2: "1 < length (middlewares broken_app)"
    by (simp add: broken_app_middlewares)
  have h3: "\<forall>i<1. \<forall>c. first_stop ((middlewares broken_app ! i) c) = Some Next"
    by (simp add: broken_app_middlewares logger_def always_def)
  have h4: "\<forall>c. \<exists>m. Throw m \<in> set ((middlewares broken_app ! 1) c)"
    by (simp add: broken_app_middlewares broken_def always_def)
  have run: "runMiddlewares (Suc (length (middlewares broken_app))) broken_app (rq_method ?rq)
        (cleanPath ''/users/7'') (parseBody parse_a1 (arrive ?rq)) =
      Raised ''bad token''
        \<lparr>req_method = ''GET'', req_url = ''/users/7'', req_host = ''localhost'', stream = [],
         params = [], body = JObj [], statusCode = 200, headers = [], res_state = Open,
         mw_i = 2, h_j = 0,
         trace = [MiddlewareRun 0, SideEffect ''log'', MiddlewareRun 1]\<rparr>"
    by (simp add: request_for_def broken_app_middlewares runMiddlewares.simps Let_def arrive_def
        parseBody_def emit_def logger_def broken_def always_def)
  from middleware_error_reaches_outer_catch[where U = path_only and rq = ?rq and J = parse_a1
      and a = broken_app and k = 1, OF h1 h2 h3 h4]
  obtain msg t where
    r: "runMiddlewares (Suc (length (middlewares broken_app))) broken_app (rq_method ?rq)
        (cleanPath ''/users/7'') (parseBody parse_a1 (arrive ?rq)) = Raised msg t"
    and hr: \<open>handleRequest path_only parse_a1 broken_app ?rq =
        (if res_state t = Open then
           Normal (t\<lparr>statusCode := 500,
             headers := put_header ''Content-Type'' ''application/json'' (headers t),
             res_state := Finished,
             trace := trace t @
               [Ended 500 (''{"error":"Server error","message":'' @ quote msg @ ''}'')]\<rparr>)
         else Raised (ERR_HTTP_HEADERS_SENT ''write'') t)\<close>
    by blast
  from r run have "msg = ''bad token''"
    and "t = \<lparr>req_method = ''GET'', req_url = ''/users/7'', req_host = ''localhost'', stream = [],
         params = [], body = JObj [], statusCode = 200, headers = [], res_state = Open,
         mw_i = 2, h_j = 0,
         trace = [MiddlewareRun 0, SideEffect ''log'', MiddlewareRun 1]\<rparr>"
    by simp_all
  with hr show ?thesis
    by (simp add: put_header_def quote_def escape_char_def backslash_def)
qed

text \<open>
  Claim C6 as stated fails on a middleware that answers and then throws: the error
  reaches the \<open>catch\<close> of \<open>handleRequest\<close>, but no 500 response is produced.
\<close>

theorem middleware_error_counterexample:
  \<open>handleRequest path_only parse_a1 hasty_app (request_for ''GET'' ''/users/7'' []) =
     Raised ''Cannot write headers after they are sent to the client''
       \<lparr>req_method = ''GET'', req_url = ''/users/7'', req_host = ''localhost'', stream = [],
        params = [], body = JObj [], statusCode = 200,
        headers = [(''Content-Type'', ''application/json'')], res_state = Finished,
        mw_i = 1, h_j = 0,
        trace = [MiddlewareRun 0, Ended 200 ''{"ok":true}'']\<rparr>\<close>
  by (simp add: handleRequest_def path_only_def request_for_def hasty_app_middlewares
      runMiddlewares.simps Let_def arrive_def parseBody_def emit_def hasty_def always_def
      server_error_def writeHead_def res_json_def setHeader_def put_header_def res_end_def
      ERR_HTTP_HEADERS_SENT_def quote_def escape_char_def backslash_def)

text \<open>
  Claim C7. For POST, PUT and PATCH the whole payload is read and parsed before the
  first middleware is called: the dispatch starts on the context that \<open>parseBody\<close>
  returns, on which nothing has run yet, with \<open>req.body\<close> the parsed value, or \<open>{}\<close>
  when the parser throws (no error comes of it). For every other method the payload
  is not read and \<open>req.body\<close> is \<open>{}\<close>. No function of the application can change
  \<open>req.body\<close> in the model, so the request ends with that body too.
\<close>

theorem body_is_parsed_before_dispatch:
  assumes "U (rq_url rq) (rq_host rq) = Inr p"
  shows "(\<exists>t. outcome (handleRequest U J a rq) = Some t \<and>
        body t =
          (if rq_method rq = ''POST'' \<or> rq_method rq = ''PUT'' \<or> rq_method rq = ''PATCH''
           then (case J (concat (rq_payload rq)) of Some v \<Rightarrow> v | None \<Rightarrow> JObj [])
           else JObj []) \<and>
        stream t =
          (if rq_method rq = ''POST'' \<or> rq_method rq = ''PUT'' \<or> rq_method rq = ''PATCH''
           then [] else rq_payload rq)) \<and>
     handleRequest U J a rq =
       (case runMiddlewares (Suc (length (middlewares a))) a (rq_method rq) (cleanPath p)
               (parseBody J (arrive rq)) of
          Raised msg t \<Rightarrow> server_error msg t
        | r \<Rightarrow> r) \<and>
     trace (parseBody J (arrive rq)) = [] \<and>
     body (parseBody J (arrive rq)) =
       (if rq_method rq = ''POST'' \<or> rq_method rq = ''PUT'' \<or> rq_method rq = ''PATCH''
        then (case J (concat (rq_payload rq)) of Some v \<Rightarrow> v | None \<Rightarrow> JObj [])
        else JObj []) \<and>
     stream (parseBody J (arrive rq)) =
       (if rq_method rq = ''POST'' \<or> rq_method rq = ''PUT'' \<or> rq_method rq = ''PATCH''
        then [] else rq_payload rq)"
proof -
  let ?s0 = "parseBody J (arrive rq)"
  let ?P = "\<lambda>t. body t = body ?s0 \<and> stream t = stream ?s0"
  have st: "stable ?P"
    by (simp add: stable_def perform_fields emit_def)
  have "holds ?P (runMiddlewares (Suc (length (middlewares a))) a (rq_method rq) (cleanPath p) ?s0)"
    by (rule runMiddlewares_holds[OF st]) simp_all
  then have "holds ?P (handleRequest U J a rq)"
    unfolding handleRequest_dispatch[where U = U and rq = rq, OF assms]
    by (auto split: result.splits simp: server_error_eq)
  moreover obtain t where t: "outcome (handleRequest U J a rq) = Some t"
    using outcome_finishes[OF handleRequest_returns] by blast
  ultimately have "?P t"
    by (rule holds_outcome)
  with t have ex: "\<exists>t. outcome (handleRequest U J a rq) = Some t \<and> body t = body ?s0 \<and> stream t = stream ?s0"
    by blast
  have tr: "trace ?s0 = []" by (simp add: parseBody_fields arrive_def)
  have ar: "req_method (arrive rq) = rq_method rq" "stream (arrive rq) = rq_payload rq"
    by (simp_all add: arrive_def)
  note pb = parseBody_body[of J "arrive rq", unfolded ar]
  from ex have "\<exists>t. outcome (handleRequest U J a rq) = Some t \<and>
        body t =
          (if rq_method rq = ''POST'' \<or> rq_method rq = ''PUT'' \<or> rq_method rq = ''PATCH''
           then (case J (concat (rq_payload rq)) of Some v \<Rightarrow> v | None \<Rightarrow> JObj [])
           else JObj []) \<and>
        stream t =
          (if rq_method rq = ''POST'' \<or> rq_method rq = ''PUT'' \<or> rq_method rq = ''PATCH''
           then [] else rq_payload rq)"
    unfolding pb .
  with tr pb handleRequest_dispatch[where U = U and rq = rq, OF assms] show ?thesis
    by blast
qed

theorem body_is_parsed_before_dispatch_witness:
  \<open>(\<exists>t. outcome (handleRequest path_only parse_a1 users_app (request_for ''POST'' ''/users/7'' [''{"a"'', '':1}''])) = Some t \<and>
        body t = JObj [(''a'', JNum 1)] \<and> stream t = []) \<and>
   body (parseBody parse_a1 (arrive (request_for ''POST'' ''/users/7'' [''{"a"'', ''=1}'']))) = JObj [] \<and>
   body (parseBody parse_a1 (arrive (request_for ''GET'' ''/users/7'' [''{"a"'', '':1}'']))) = JObj [] \<and>
   stream (parseBody parse_a1 (arrive (request_for ''GET'' ''/users/7'' [''{"a"'', '':1}'']))) = [''{"a"'', '':1}'']\<close>
proof -
  note w = body_is_parsed_before_dispatch[of path_only "request_for m ''/users/7'' cs" "''/users/7''"
      parse_a1 users_app for m cs]
  have \<open>\<exists>t. outcome (handleRequest path_only parse_a1 users_app (request_for ''POST'' ''/users/7'' [''{"a"'', '':1}''])) = Some t \<and>
        body t = JObj [(''a'', JNum 1)] \<and> stream t = []\<close>
    using w[of "''POST''" \<open>[''{"a"'', '':1}'']\<close>, THEN conjunct1]
    by (simp add: path_only_def request_for_def parse_a1_def)
  moreover have \<open>body (parseBody parse_a1 (arrive (request_for ''POST'' ''/users/7'' [''{"a"'', ''=1}'']))) = JObj []\<close>
    using w[of "''POST''" \<open>[''{"a"'', ''=1}'']\<close>, THEN conjunct2, THEN conjunct2, THEN conjunct2, THEN conjunct1]
    by (simp add: path_only_def request_for_def parse_a1_def)
  moreover have \<open>body (parseBody parse_a1 (arrive (request_for ''GET'' ''/users/7'' [''{"a"'', '':1}'']))) = JObj []\<close>
    using w[of "''GET''" \<open>[''{"a"'', '':1}'']\<close>, THEN conjunct2, THEN conjunct2, THEN conjunct2, THEN conjunct1]
    by (simp add: path_only_def request_for_def parse_a1_def)
  moreover have \<open>stream (parseBody parse_a1 (arrive (request_for ''GET'' ''/users/7'' [''{"a"'', '':1}'']))) = [''{"a"'', '':1}'']\<close>
    using w[of "''GET''" \<open>[''{"a"'', '':1}'']\<close>, THEN conjunct2, THEN conjunct2, THEN conjunct2, THEN conjunct2]
    by (simp add: path_only_def request_for_def parse_a1_def)
  ultimately show ?thesis by blast
qed

text \<open>
  Claim C8, amended. The path that is routed is the path name without its trailing
  slashes, \<open>/\<close> when nothing is left. A request whose path name has more slashes at the
  end is dispatched on the same cleaned path, from a context that differs in \<open>req.url\<close>
  only; the lookup gives it the same route and the same parameters. The response is the
  same when no middleware and no handler of the application looks at \<open>req.url\<close>: then
  the two requests end alike but for \<open>req.url\<close>.
\<close>

theorem trailing_slashes_do_not_matter:
  assumes "U (rq_url r1) (rq_host r1) = Inr p"
    and "U u2 (rq_host r1) = Inr (p @ replicate n CHR ''/'')"
  shows "cleanPath (p @ replicate n CHR ''/'') = cleanPath p \<and>
    cleanPath (replicate n CHR ''/'') = ''/'' \<and>
    (\<exists>m. p = cleanPath p @ replicate m CHR ''/'' \<or> (cleanPath p = ''/'' \<and> p = replicate m CHR ''/'')) \<and>
    (cleanPath p = ''/'' \<or> (cleanPath p \<noteq> [] \<and> last (cleanPath p) \<noteq> CHR ''/'')) \<and>
    handleRequest U J a (r1\<lparr>rq_url := u2\<rparr>) =
      (case runMiddlewares (Suc (length (middlewares a))) a (rq_method r1) (cleanPath p)
              ((parseBody J (arrive r1))\<lparr>req_url := u2\<rparr>) of
         Raised msg t \<Rightarrow> server_error msg t
       | r \<Rightarrow> r) \<and>
    (middlewares a = [] \<longrightarrow>
       handleRequest U J a (r1\<lparr>rq_url := u2\<rparr>) =
         (case routeHandler (routes a) (rq_method r1) (cleanPath p)
                 ((parseBody J (arrive r1))\<lparr>req_url := u2, mw_i := 1\<rparr>) of
            Raised msg t \<Rightarrow> server_error msg t
          | r \<Rightarrow> r)) \<and>
    (\<forall>i g s. i < length (routes a) \<and> str_match (cleanPath p) (regex (routes a ! i)) = Some g \<and>
        route_method (routes a ! i) = rq_method r1 \<and>
        (\<forall>k<i. str_match (cleanPath p) (regex (routes a ! k)) = None \<or>
           route_method (routes a ! k) \<noteq> rq_method r1) \<longrightarrow>
        routeHandler (routes a) (rq_method r1) (cleanPath (p @ replicate n CHR ''/'')) s =
          next_handler (Suc (length (handlers (routes a ! i)))) (handlers (routes a ! i))
            (s\<lparr>trace := trace s @ [RouteLookup], params := g, h_j := 0\<rparr>)) \<and>
    (url_blind a \<longrightarrow>
       handleRequest U J a (r1\<lparr>rq_url := u2\<rparr>) = with_url u2 (handleRequest U J a r1))"
proof -
  let ?r2 = "r1\<lparr>rq_url := u2\<rparr>"
  let ?s0 = "parseBody J (arrive r1)"
  have c: "cleanPath (p @ replicate n CHR ''/'') = cleanPath p"
    by (rule cleanPath_append_slashes)
  have u2: "U (rq_url ?r2) (rq_host ?r2) = Inr (p @ replicate n CHR ''/'')"
    using assms(2) by simp
  have s2: "parseBody J (arrive ?r2) = ?s0\<lparr>req_url := u2\<rparr>"
    by (simp add: arrive_url parseBody_url)
  have d2: "handleRequest U J a ?r2 =
      (case runMiddlewares (Suc (length (middlewares a))) a (rq_method r1) (cleanPath p)
              (?s0\<lparr>req_url := u2\<rparr>) of
         Raised msg t \<Rightarrow> server_error msg t
       | r \<Rightarrow> r)"
    unfolding handleRequest_dispatch[where U = U and rq = ?r2, OF u2] s2 c by simp
  have e: "handleRequest U J a ?r2 =
         (case routeHandler (routes a) (rq_method r1) (cleanPath p)
                 (?s0\<lparr>req_url := u2, mw_i := 1\<rparr>) of
            Raised msg t \<Rightarrow> server_error msg t
          | r \<Rightarrow> r)" if "middlewares a = []"
    unfolding d2 using that
    by (simp add: runMiddlewares_no_middleware parseBody_fields arrive_def)
  have m: "routeHandler (routes a) (rq_method r1) (cleanPath (p @ replicate n CHR ''/'')) s =
          next_handler (Suc (length (handlers (routes a ! i)))) (handlers (routes a ! i))
            (s\<lparr>trace := trace s @ [RouteLookup], params := g, h_j := 0\<rparr>)"
    if "i < length (routes a)" "str_match (cleanPath p) (regex (routes a ! i)) = Some g"
      "route_method (routes a ! i) = rq_method r1"
      "\<forall>k<i. str_match (cleanPath p) (regex (routes a ! k)) = None \<or>
           route_method (routes a ! k) \<noteq> rq_method r1" for i g s
    unfolding c using that by (rule routeHandler_matched)
  have b: "handleRequest U J a ?r2 = with_url u2 (handleRequest U J a r1)" if "url_blind a"
  proof -
    let ?run = "runMiddlewares (Suc (length (middlewares a))) a (rq_method r1) (cleanPath p) ?s0"
    have "handleRequest U J a ?r2 = (case with_url u2 ?run of Raised msg t \<Rightarrow> server_error msg t | r \<Rightarrow> r)"
      unfolding d2 runMiddlewares_url[OF that] ..
    also have "\<dots> = with_url u2 (case ?run of Raised msg t \<Rightarrow> server_error msg t | r \<Rightarrow> r)"
      by (cases ?run) (simp_all add: server_error_url)
    finally show ?thesis
      unfolding handleRequest_dispatch[where U = U and rq = r1, OF assms(1)] .
  qed
  have f1: "\<exists>m. p = cleanPath p @ replicate m CHR ''/'' \<or> (cleanPath p = ''/'' \<and> p = replicate m CHR ''/'')"
    using strip_trailing_slashes_decomp[of p] by (auto simp: cleanPath_def Let_def)
  have f2: "cleanPath p = ''/'' \<or> (cleanPath p \<noteq> [] \<and> last (cleanPath p) \<noteq> CHR ''/'')"
    using strip_trailing_slashes_last[of p] by (auto simp: cleanPath_def Let_def)
  have f3: "cleanPath (replicate n CHR ''/'') = ''/''"
    by (rule cleanPath_slashes)
  from c f3 f1 f2 d2 e m b show ?thesis
    by blast
qed

theorem trailing_slashes_do_not_matter_witness:
  \<open>handleRequest path_only parse_a1 users_app (request_for ''GET'' ''/users/7//'' []) =
     Normal \<lparr>req_method = ''GET'', req_url = ''/users/7//'', req_host = ''localhost'', stream = [],
       params = [(''id'', ''7'')], body = JObj [], statusCode = 200,
       headers = [(''Content-Type'', ''application/json'')], res_state = Finished,
       mw_i = 1, h_j = 1,
       trace = [RouteLookup, HandlerRun 0, Ended 200 ''{"userId":"7"}'']\<rparr> \<and>
   handleRequest path_only parse_a1 users_app (request_for ''GET'' ''/users/7'' []) =
     Normal \<lparr>req_method = ''GET'', req_url = ''/users/7'', req_host = ''localhost'', stream = [],
       params = [(''id'', ''7'')], body = JObj [], statusCode = 200,
       headers = [(''Content-Type'', ''application/json'')], res_state = Finished,
       mw_i = 1, h_j = 1,
       trace = [RouteLookup, HandlerRun 0, Ended 200 ''{"userId":"7"}'']\<rparr> \<and>
   cleanPath ''/users/7//'' = ''/users/7''\<close>
proof -
  let ?r1 = "request_for ''GET'' ''/users/7'' []"
  have m: "str_match ''/users/7'' users_id = Some [(''id'', ''7'')]"
    by code_simp
  have c: "cleanPath ''/users/7'' = ''/users/7''"
    by code_simp
  have blind: "url_blind users_app"
    by (simp add: url_blind_def users_app_routes users_app_middlewares reads_no_url_def
        show_user_def show_me_def)
  have h1: "path_only (rq_url ?r1) (rq_host ?r1) = Inr ''/users/7''"
    by (simp add: path_only_def request_for_def)
  have h2: "path_only ''/users/7//'' (rq_host ?r1) = Inr (''/users/7'' @ replicate 2 CHR ''/'')"
    by (simp add: path_only_def numeral_2_eq_2)
  have r2: "?r1\<lparr>rq_url := ''/users/7//''\<rparr> = request_for ''GET'' ''/users/7//'' []"
    by (simp add: request_for_def)
  have one: \<open>handleRequest path_only parse_a1 users_app ?r1 =
     Normal \<lparr>req_method = ''GET'', req_url = ''/users/7'', req_host = ''localhost'', stream = [],
       params = [(''id'', ''7'')], body = JObj [], statusCode = 200,
       headers = [(''Content-Type'', ''application/json'')], res_state = Finished,
       mw_i = 1, h_j = 1,
       trace = [RouteLookup, HandlerRun 0, Ended 200 ''{"userId":"7"}'']\<rparr>\<close>
    by (simp add: handleRequest_def path_only_def request_for_def users_app_middlewares
        users_app_routes runMiddlewares.simps routeHandler_def next_handler.simps Let_def
        arrive_def parseBody_def emit_def c m show_user_def res_json_def res_end_def
        setHeader_def put_header_def quote_def escape_char_def backslash_def)
  note w = trailing_slashes_do_not_matter[where U = path_only and J = parse_a1 and a = users_app
      and ?r1.0 = ?r1 and ?u2.0 = "''/users/7//''", OF h1 h2]
  from w blind have "handleRequest path_only parse_a1 users_app (?r1\<lparr>rq_url := ''/users/7//''\<rparr>) =
      with_url ''/users/7//'' (handleRequest path_only parse_a1 users_app ?r1)"
    by blast
  moreover from w have "cleanPath (''/users/7'' @ replicate 2 CHR ''/'') = cleanPath ''/users/7''"
    by blast
  ultimately show ?thesis
    unfolding r2 one by (simp add: c numeral_2_eq_2)
qed

text \<open>
  Claim C8 as stated fails for the response when a handler uses \<open>req.url\<close>, which the
  engine hands on as it came: the route and the parameters are the same, the responses
  differ.
\<close>

theorem trailing_slash_counterexample:
  \<open>handleRequest path_only parse_a1 (one_route ''/chain'' [echo]) (request_for ''GET'' ''/chain/'' []) =
     Normal \<lparr>req_method = ''GET'', req_url = ''/chain/'', req_host = ''localhost'', stream = [],
       params = [], body = JObj [], statusCode = 200, headers = [], res_state = Finished,
       mw_i = 1, h_j = 1,
       trace = [RouteLookup, HandlerRun 0, Ended 200 ''/chain/'']\<rparr> \<and>
   handleRequest path_only parse_a1 (one_route ''/chain'' [echo]) (request_for ''GET'' ''/chain'' []) =
     Normal \<lparr>req_method = ''GET'', req_url = ''/chain'', req_host = ''localhost'', stream = [],
       params = [], body = JObj [], statusCode = 200, headers = [], res_state = Finished,
       mw_i = 1, h_j = 1,
       trace = [RouteLookup, HandlerRun 0, Ended 200 ''/chain'']\<rparr>\<close>
proof -
  have c: "cleanPath ''/chain/'' = ''/chain''" "cleanPath ''/chain'' = ''/chain''"
    by code_simp+
  show ?thesis
    by (simp add: handleRequest_def path_only_def request_for_def one_route_chain match_chain
        runMiddlewares.simps routeHandler_def next_handler.simps Let_def arrive_def parseBody_def
        emit_def c echo_def res_end_def)
qed

text \<open>
  Claim C9, amended. When no route of the table matches the path with the request's
  method (so also when the table is empty), the lookup, started while no response has
  been sent, answers with status 404 and the body \<open>{"error":"Route not found"}\<close> and
  returns; started after a response was sent, it sends nothing and \<open>res.setHeader\<close>
  throws. No handler runs for such a request. The lookup is reached with nothing sent
  when every middleware calls \<open>next()\<close> without having answered; then the 404 answer is
  the one response of the request.
\<close>

theorem unmatched_request_gets_404:
  assumes "U (rq_url rq) (rq_host rq) = Inr p"
    and "\<forall>r \<in> set (routes a). str_match (cleanPath p) (regex r) = None \<or> route_method r \<noteq> rq_method rq"
  shows \<open>(\<forall>s. routeHandler (routes a) (rq_method rq) (cleanPath p) s =
       (if res_state s = Open then
          Normal (s\<lparr>statusCode := 404,
            headers := put_header ''Content-Type'' ''application/json'' (headers s),
            res_state := Finished,
            trace := trace s @ [RouteLookup, NotFound, Ended 404 ''{"error":"Route not found"}'']\<rparr>)
        else
          Raised (ERR_HTTP_HEADERS_SENT ''set'')
            (s\<lparr>statusCode := 404, trace := trace s @ [RouteLookup, NotFound]\<rparr>))) \<and>
    (\<exists>t. outcome (handleRequest U J a rq) = Some t \<and> (\<forall>j. HandlerRun j \<notin> set (trace t)) \<and>
       ((\<forall>i<length (middlewares a). \<forall>c.
           first_stop ((middlewares a ! i) c) = Some Next \<and> unanswered ((middlewares a ! i) c)) \<longrightarrow>
        responses (trace t) = [(404, ''{"error":"Route not found"}'')]))\<close>
proof -
  let ?s0 = "parseBody J (arrive rq)"
  let ?run = "runMiddlewares (Suc (length (middlewares a))) a (rq_method rq) (cleanPath p) ?s0"
  let ?N = "\<lambda>t. \<forall>j. HandlerRun j \<notin> set (trace t)"
  let ?Q = \<open>\<lambda>t. Ended 404 ''{"error":"Route not found"}'' \<in> set (trace t)\<close>
  note lookup = routeHandler_no_match[OF assms(2)]
  obtain t where t: "outcome (handleRequest U J a rq) = Some t"
    using outcome_finishes[OF handleRequest_returns] by blast
  have "holds ?N ?run"
  proof (rule runMiddlewares_invariant[where P = ?N])
    show "?N ?s0" by (simp add: parseBody_fields arrive_def)
    show "holds ?N (routeHandler (routes a) (rq_method rq) (cleanPath p) v)" if "?N v" for v
      using that by (simp add: lookup)
    show "?N u" if "?N v" "perform c v = Inr u" for c v u
      using that trace_perform[OF that(2)] by auto
  qed (simp_all add: emit_def)
  then have "holds ?N (handleRequest U J a rq)"
    unfolding handleRequest_dispatch[where U = U and rq = rq, OF assms(1)]
    by (auto split: result.splits simp: server_error_eq)
  then have n: "?N t" using t by (rule holds_outcome)
  have one: "one_response t"
    using handleRequest_one_response t by (rule holds_outcome)
  have r: \<open>responses (trace t) = [(404, ''{"error":"Route not found"}'')]\<close>
    if pass: "\<forall>i<length (middlewares a). \<forall>c.
           first_stop ((middlewares a ! i) c) = Some Next \<and> unanswered ((middlewares a ! i) c)"
  proof -
    have "holds ?Q ?run"
      by (rule runMiddlewares_reaches_lookup[OF pass assms(2)])
         (simp add: parseBody_fields arrive_def)
    then have "holds ?Q (handleRequest U J a rq)"
      unfolding handleRequest_dispatch[where U = U and rq = rq, OF assms(1)]
      by (auto split: result.splits simp: server_error_eq)
    then have "?Q t" using t by (rule holds_outcome)
    with one show ?thesis by (rule only_response)
  qed
  from lookup t n r show ?thesis
    by blast
qed

theorem unmatched_request_gets_404_witness:
  \<open>routeHandler (routes logged_app) ''GET'' ''/posts'' (arrive (request_for ''GET'' ''/posts/'' [])) =
     Normal \<lparr>req_method = ''GET'', req_url = ''/posts/'', req_host = ''localhost'', stream = [],
       params = [], body = JNull, statusCode = 404,
       headers = [(''Content-Type'', ''application/json'')], res_state = Finished,
       mw_i = 0, h_j = 0,
       trace = [RouteLookup, NotFound, Ended 404 ''{"error":"Route not found"}'']\<rparr> \<and>
   (\<exists>t. outcome (handleRequest path_only parse_a1 logged_app (request_for ''GET'' ''/posts/'' [])) = Some t \<and>
      responses (trace t) = [(404, ''{"error":"Route not found"}'')] \<and> HandlerRun 0 \<notin> set (trace t)) \<and>
   (\<exists>t. outcome (handleRequest path_only parse_a1 replicax (request_for ''DELETE'' ''/users/7'' [])) = Some t \<and>
      responses (trace t) = [(404, ''{"error":"Route not found"}'')])\<close>
proof -
  have a: "str_match ''/posts'' users_id = None"
    by code_simp
  have b: "str_match ''/posts'' users_me = None"
    by code_simp
  have c: "cleanPath ''/posts/'' = ''/posts''"
    by code_simp
  have p: "first_stop (logger x) = Some Next" "unanswered (logger x)" for x
    by (simp_all add: logger_def always_def)
  have h1: "path_only (rq_url (request_for ''GET'' ''/posts/'' [])) (rq_host (request_for ''GET'' ''/posts/'' [])) = Inr ''/posts/''"
    by (simp add: path_only_def request_for_def)
  have h2: "\<forall>r\<in>set (routes logged_app). str_match (cleanPath ''/posts/'') (regex r) = None \<or>
      route_method r \<noteq> rq_method (request_for ''GET'' ''/posts/'' [])"
    by (simp add: logged_app_fields users_app_routes a b c)
  have h3: "path_only (rq_url (request_for ''DELETE'' ''/users/7'' [])) (rq_host (request_for ''DELETE'' ''/users/7'' [])) = Inr ''/users/7''"
    by (simp add: path_only_def request_for_def)
  have h4: "\<forall>r\<in>set (routes replicax). str_match (cleanPath ''/users/7'') (regex r) = None \<or>
      route_method r \<noteq> rq_method (request_for ''DELETE'' ''/users/7'' [])"
    by (simp add: replicax_def)
  note w1 = unmatched_request_gets_404[where U = path_only and J = parse_a1 and a = logged_app
      and rq = "request_for ''GET'' ''/posts/'' []", OF h1 h2]
  note w2 = unmatched_request_gets_404[where U = path_only and J = parse_a1 and a = replicax
      and rq = "request_for ''DELETE'' ''/users/7'' []", OF h3 h4]
  from w1[THEN conjunct1, rule_format, of "arrive (request_for ''GET'' ''/posts/'' [])"]
  have \<open>routeHandler (routes logged_app) ''GET'' ''/posts'' (arrive (request_for ''GET'' ''/posts/'' [])) =
     Normal \<lparr>req_method = ''GET'', req_url = ''/posts/'', req_host = ''localhost'', stream = [],
       params = [], body = JNull, statusCode = 404,
       headers = [(''Content-Type'', ''application/json'')], res_state = Finished,
       mw_i = 0, h_j = 0,
       trace = [RouteLookup, NotFound, Ended 404 ''{"error":"Route not found"}'']\<rparr>\<close>
    by (simp add: c arrive_def request_for_def put_header_def)
  moreover from w1[THEN conjunct2]
  have \<open>\<exists>t. outcome (handleRequest path_only parse_a1 logged_app (request_for ''GET'' ''/posts/'' [])) = Some t \<and>
      responses (trace t) = [(404, ''{"error":"Route not found"}'')] \<and> HandlerRun 0 \<notin> set (trace t)\<close>
    by (auto simp: logged_app_fields p)
  moreover from w2[THEN conjunct2]
  have \<open>\<exists>t. outcome (handleRequest path_only parse_a1 replicax (request_for ''DELETE'' ''/users/7'' [])) = Some t \<and>
      responses (trace t) = [(404, ''{"error":"Route not found"}'')]\<close>
    by (auto simp: replicax_def)
  ultimately show ?thesis by blast
qed

text \<open>
  Claim C9 as stated fails when a middleware has answered before it calls \<open>next()\<close>: no
  route matches, and no 404 response is produced.
\<close>

theorem unmatched_request_counterexample:
  \<open>str_match ''/posts'' (regex (routes eager_app ! 0)) = None \<and>
   str_match ''/posts'' (regex (routes eager_app ! 1)) = None \<and>
   length (routes eager_app) = 2 \<and>
   handleRequest path_only parse_a1 eager_app (request_for ''GET'' ''/posts'' []) =
     Raised ''Cannot write headers after they are sent to the client''
       \<lparr>req_method = ''GET'', req_url = ''/posts'', req_host = ''localhost'', stream = [],
        params = [], body = JObj [], statusCode = 404,
        headers = [(''Content-Type'', ''application/json'')], res_state = Finished,
        mw_i = 2, h_j = 0,
        trace = [MiddlewareRun 0, Ended 200 ''{"ok":true}'', RouteLookup, NotFound]\<rparr>\<close>
proof -
  have a: "str_match ''/posts'' users_id = None"
    by code_simp
  have b: "str_match ''/posts'' users_me = None"
    by code_simp
  have c: "cleanPath ''/posts'' = ''/posts''"
    by code_simp
  show ?thesis
    by (simp add: a b c handleRequest_def path_only_def request_for_def eager_app_fields
        users_app_routes runMiddlewares.simps routeHandler_def status_json_def Let_def arrive_def
        parseBody_def emit_def eager_def always_def server_error_def writeHead_def res_json_def
        res_status_def setHeader_def put_header_def res_end_def ERR_HTTP_HEADERS_SENT_def
        quote_def escape_char_def backslash_def)
qed

text \<open>
  Claim C10, amended. In a pattern without metacharacters, every colon that is followed
  by at least one name character starts a named group, at the start of a segment or
  inside one, and the name is the longest run of name characters; every other
  character, a colon that no name character follows included, stands for itself. When
  one of these names starts with a digit or stands twice in the pattern, the constructor
  of the regular expression throws and no route is registered. Otherwise the expression
  is \<open>tokens\<close> of the cleaned pattern; it matches only paths that are the pattern with
  each group replaced by a non-empty text without a slash, and it matches every such
  path.
\<close>

theorem colon_names_are_captures:
  assumes "list_all (\<lambda>c. \<not> is_metachar c) p"
  shows "(list_all (\<lambda>k. \<not> is_digit (hd k)) (group_names (tokens (cleanPath p))) \<and>
        distinct (group_names (tokens (cleanPath p))) \<longrightarrow>
      (\<exists>re. pathToRegex p = Inr (re, group_names re) \<and> re = tokens (cleanPath p) \<and>
         (\<forall>s g. str_match s re = Some g \<longrightarrow>
            map fst g = group_names re \<and> s = fill re (map snd g) \<and>
            (\<forall>v\<in>set (map snd g). v \<noteq> [] \<and> CHR ''/'' \<notin> set v)) \<and>
         (\<forall>vs. length vs = length (group_names re) \<and> (\<forall>v\<in>set vs. v \<noteq> [] \<and> CHR ''/'' \<notin> set v) \<longrightarrow>
            str_match (fill re vs) re \<noteq> None))) \<and>
     (\<not> (list_all (\<lambda>k. \<not> is_digit (hd k)) (group_names (tokens (cleanPath p))) \<and>
          distinct (group_names (tokens (cleanPath p)))) \<longrightarrow>
      pathToRegex p = Inl SyntaxError \<and> (\<forall>m hs a. register m p hs a = Inl SyntaxError))"
proof (intro conjI impI)
  assume ok: "list_all (\<lambda>k. \<not> is_digit (hd k)) (group_names (tokens (cleanPath p))) \<and>
        distinct (group_names (tokens (cleanPath p)))"
  then show "\<exists>re. pathToRegex p = Inr (re, group_names re) \<and> re = tokens (cleanPath p) \<and>
         (\<forall>s g. str_match s re = Some g \<longrightarrow>
            map fst g = group_names re \<and> s = fill re (map snd g) \<and>
            (\<forall>v\<in>set (map snd g). v \<noteq> [] \<and> CHR ''/'' \<notin> set v)) \<and>
         (\<forall>vs. length vs = length (group_names re) \<and> (\<forall>v\<in>set vs. v \<noteq> [] \<and> CHR ''/'' \<notin> set v) \<longrightarrow>
            str_match (fill re vs) re \<noteq> None)"
    using pathToRegex_tokens[OF assms] match_nodes_sound match_nodes_complete
    unfolding str_match_def by blast
next
  assume bad: "\<not> (list_all (\<lambda>k. \<not> is_digit (hd k)) (group_names (tokens (cleanPath p))) \<and>
          distinct (group_names (tokens (cleanPath p))))"
  show e: "pathToRegex p = Inl SyntaxError"
    using assms bad by (rule pathToRegex_refused)
  show "\<forall>m hs a. register m p hs a = Inl SyntaxError"
    by (simp add: register_def e)
qed

theorem colon_names_are_captures_witness:
  "pathToRegex ''/a:b/c:'' =
     Inr ([Literal CHR ''/'', Literal CHR ''a'', NamedGroup ''b'', Literal CHR ''/'', Literal CHR ''c'',
           Literal CHR '':''], [''b'']) \<and>
   str_match ''/axyz/c:'' (tokens (cleanPath ''/a:b/c:'')) = Some [(''b'', ''xyz'')] \<and>
   str_match ''/axyz/c'' (tokens (cleanPath ''/a:b/c:'')) = None \<and>
   pathToRegex ''/:id/:id'' = Inl SyntaxError \<and>
   pathToRegex ''/:1a'' = Inl SyntaxError"
proof -
  have c: "cleanPath ''/a:b/c:'' = ''/a:b/c:''"
    by code_simp
  have t: "tokens ''/a:b/c:'' =
      [Literal CHR ''/'', Literal CHR ''a'', NamedGroup ''b'', Literal CHR ''/'', Literal CHR ''c'',
       Literal CHR '':'']"
    by code_simp
  have m: "list_all (\<lambda>c. \<not> is_metachar c) ''/a:b/c:''"
    by (simp add: is_metachar_def backslash_def)
  have d: "\<not> is_digit (hd ''b'')"
    by (simp add: is_digit_def)
  have r: "str_match ''/axyz/c:'' (tokens ''/a:b/c:'') = Some [(''b'', ''xyz'')]"
    "str_match ''/axyz/c'' (tokens ''/a:b/c:'') = None"
    by code_simp+
  from colon_names_are_captures[of "''/a:b/c:''", THEN conjunct1] m d
  have "\<exists>re. pathToRegex ''/a:b/c:'' = Inr (re, group_names re) \<and> re = tokens ''/a:b/c:''"
    unfolding c t by simp
  then have one: "pathToRegex ''/a:b/c:'' = Inr (tokens ''/a:b/c:'', group_names (tokens ''/a:b/c:''))"
    by auto
  have c2: "cleanPath ''/:id/:id'' = ''/:id/:id''" "cleanPath ''/:1a'' = ''/:1a''"
    by code_simp+
  have t2: "group_names (tokens ''/:id/:id'') = [''id'', ''id'']" "group_names (tokens ''/:1a'') = [''1a'']"
    by code_simp+
  have m2: "list_all (\<lambda>c. \<not> is_metachar c) ''/:id/:id''" "list_all (\<lambda>c. \<not> is_metachar c) ''/:1a''"
    by (simp_all add: is_metachar_def backslash_def)
  from colon_names_are_captures[OF m2(1), THEN conjunct2]
  have two: "pathToRegex ''/:id/:id'' = Inl SyntaxError"
    unfolding c2 t2 by simp
  from colon_names_are_captures[OF m2(2), THEN conjunct2]
  have three: "pathToRegex ''/:1a'' = Inl SyntaxError"
    unfolding c2 t2 by (simp add: is_digit_def)
  from one r two three show ?thesis
    unfolding c t by simp
qed

text \<open>
  Claim C10 as stated fails on \<open>/a:b\<close>: the segment \<open>a:b\<close> is not of the form \<open>:name\<close>,
  yet \<open>:b\<close> is compiled to a group, and the path \<open>/axyz\<close> matches.
\<close>

theorem colon_inside_a_segment_counterexample:
  "pathToRegex ''/a:b'' = Inr ([Literal CHR ''/'', Literal CHR ''a'', NamedGroup ''b''], [''b'']) \<and>
   str_match ''/axyz'' [Literal CHR ''/'', Literal CHR ''a'', NamedGroup ''b''] = Some [(''b'', ''xyz'')] \<and>
   spec_tokens ''/a:b'' = map Literal ''/a:b'' \<and>
   str_match ''/axyz'' (spec_tokens ''/a:b'') = None"
  by code_simp

end
